theory Spec2Isabelle
  imports Main "HOL-Library.Sublist" "HOL-Library.Multiset"
begin

section \<open>Strings and identifier canonicalisation (src/utils/index.ts)\<close>

text \<open>
  A JavaScript string is a sequence of code units; it is modelled as \<^typ>\<open>string\<close>.
  The regular expressions of \<open>sanitizeIdentifier\<close> carry no \<open>u\<close> flag, so they look at
  one code unit at a time, as the functions below do with one \<^typ>\<open>char\<close>.
\<close>

definition isDigit :: "char \<Rightarrow> bool" where
  "isDigit c = (c \<in> set ''0123456789'')"

definition isUpper :: "char \<Rightarrow> bool" where
  "isUpper c = (c \<in> set ''ABCDEFGHIJKLMNOPQRSTUVWXYZ'')"

definition isLower :: "char \<Rightarrow> bool" where
  "isLower c = (c \<in> set ''abcdefghijklmnopqrstuvwxyz'')"

text \<open>The character class \<open>[a-zA-Z0-9_]\<close>.\<close>

definition isWordChar :: "char \<Rightarrow> bool" where
  "isWordChar c = (isLower c \<or> isUpper c \<or> isDigit c \<or> c = CHR ''_'')"

text \<open>
  The code units that \<open>String.prototype.toLowerCase\<close> changes, as far as a \<^typ>\<open>char\<close>
  reaches: the letters \<open>A\<close> to \<open>Z\<close> and the capital letters of the Latin-1 block, U+00C0 to
  U+00DE without the multiplication sign U+00D7. Each is mapped to the code unit 32 places
  further on; every other code unit below 256 is left as it is.
\<close>

definition upperCaseUnits :: string where
  "upperCaseUnits = ''ABCDEFGHIJKLMNOPQRSTUVWXYZ'' @
     [CHR 0xC0, CHR 0xC1, CHR 0xC2, CHR 0xC3, CHR 0xC4, CHR 0xC5, CHR 0xC6, CHR 0xC7,
      CHR 0xC8, CHR 0xC9, CHR 0xCA, CHR 0xCB, CHR 0xCC, CHR 0xCD, CHR 0xCE, CHR 0xCF,
      CHR 0xD0, CHR 0xD1, CHR 0xD2, CHR 0xD3, CHR 0xD4, CHR 0xD5, CHR 0xD6, CHR 0xD8,
      CHR 0xD9, CHR 0xDA, CHR 0xDB, CHR 0xDC, CHR 0xDD, CHR 0xDE]"

definition lowerCaseUnits :: string where
  "lowerCaseUnits = ''abcdefghijklmnopqrstuvwxyz'' @
     [CHR 0xE0, CHR 0xE1, CHR 0xE2, CHR 0xE3, CHR 0xE4, CHR 0xE5, CHR 0xE6, CHR 0xE7,
      CHR 0xE8, CHR 0xE9, CHR 0xEA, CHR 0xEB, CHR 0xEC, CHR 0xED, CHR 0xEE, CHR 0xEF,
      CHR 0xF0, CHR 0xF1, CHR 0xF2, CHR 0xF3, CHR 0xF4, CHR 0xF5, CHR 0xF6, CHR 0xF8,
      CHR 0xF9, CHR 0xFA, CHR 0xFB, CHR 0xFC, CHR 0xFD, CHR 0xFE]"

definition toLowerChar :: "char \<Rightarrow> char" where
  "toLowerChar c =
     (case map_of (zip upperCaseUnits lowerCaseUnits) c of
        Some l \<Rightarrow> l
      | None \<Rightarrow> c)"

definition toLowerCase :: "string \<Rightarrow> string" where
  "toLowerCase s = map toLowerChar s"

text \<open>\<open>.replace(/[^a-zA-Z0-9_]/g, '_')\<close>\<close>

definition replaceInvalid :: "string \<Rightarrow> string" where
  "replaceInvalid s = map (\<lambda>c. if isWordChar c then c else CHR ''_'') s"

text \<open>\<open>.replace(/^[0-9]/, '_$&')\<close>: only a digit at the very start is prefixed.\<close>

fun prefixLeadingDigit :: "string \<Rightarrow> string" where
  "prefixLeadingDigit [] = []"
| "prefixLeadingDigit (c # cs) = (if isDigit c then CHR ''_'' # c # cs else c # cs)"

definition sanitizeIdentifier :: "string \<Rightarrow> string" where
  "sanitizeIdentifier name = toLowerCase (prefixLeadingDigit (replaceInvalid name))"

text \<open>The characters a canonical identifier is made of: \<open>[a-z0-9_]\<close>.\<close>

definition isCanonChar :: "char \<Rightarrow> bool" where
  "isCanonChar c = (isLower c \<or> isDigit c \<or> c = CHR ''_'')"

section \<open>The data model (src/types)\<close>

datatype MongoFieldType =
    TString | TNumber | TBoolean | TDate | TObjectId | TObject | TArray | TNull | TBinary

datatype PostgresColumnType =
    TEXT | VARCHAR | INTEGER | BIGINT | DECIMAL | BOOLEAN | TIMESTAMP | DATE | UUID | JSONB | BYTEA

record FieldSchema =
  fieldName :: string
  fieldType :: MongoFieldType
  isRequired :: bool
  isArray :: bool

record IndexSchema =
  indexFields :: "string list"
  indexUnique :: bool
  indexName :: "string option"

record CollectionSchema =
  collectionName :: string
  schemaFields :: "FieldSchema list"
  indexes :: "IndexSchema list option"

text \<open>
  \<open>primaryKey?\<close> and \<open>unique?\<close> are optional members: \<open>None\<close> is \<open>undefined\<close>.
\<close>

record ColumnSchema =
  columnName :: string
  columnType :: PostgresColumnType
  nullable :: bool
  primaryKey :: "bool option"
  unique :: "bool option"

record PostgresTableSchema =
  tableName :: string
  columns :: "ColumnSchema list"

record MigrationResult =
  success :: bool
  migratedCollections :: "string list"
  errors :: "string list"
  totalDocuments :: nat
  migrationTime :: int

record TableRelationship =
  relTableName :: string
  referencedTable :: string
  relColumnName :: string
  referencedColumn :: string

record ColumnMapping =
  mongoField :: string
  postgresColumn :: string
  transformation :: "string option"

text \<open>Truthiness of an optional boolean member, as in \<open>col.unique || col.primaryKey\<close>.\<close>

definition truthy :: "bool option \<Rightarrow> bool" where
  "truthy b = (b = Some True)"

section \<open>JavaScript values and type inference (src/utils/index.ts)\<close>

text \<open>
  What \<open>'toString' in value\<close> and \<open>value.toString()\<close> give for an object: the property may
  be absent (an object without prototype), present but not a function (a document with a
  field called \<open>toString\<close>, on which the call raises a TypeError), a function that throws,
  or a function that returns a string.
\<close>

datatype ToStringProp =
    NoToString | ToStringNotCallable | ToStringThrows | ToStringReturns string

text \<open>
  The class of an object is carried along so that a binary payload (a BSON Binary or a
  Buffer) can be told from a plain document; no function of the program looks at it.
\<close>

datatype ObjectClass = PlainObject | ObjectIdObject | BinaryObject | OtherObject

text \<open>
  A value as the analyser sees it. \<open>JOther\<close> stands for the values whose \<open>typeof\<close> is
  none of string, number, boolean and object (symbols, functions, bigints). An object
  carries its own enumerable entries in the order of \<open>Object.entries\<close>.
\<close>

datatype JsValue =
    JNull
  | JUndefined
  | JString string
  | JNumber int
  | JBoolean bool
  | JOther
  | JDate
  | JArray "JsValue list"
  | JObject ObjectClass ToStringProp "(string \<times> JsValue) list"

datatype JsError = TypeError string | Thrown string

definition isHexDigit :: "char \<Rightarrow> bool" where
  "isHexDigit c = (c \<in> set ''0123456789abcdefABCDEF'')"

text \<open>\<open>/^[a-fA-F0-9]{24}$/.test(str)\<close>\<close>

definition isObjectIdString :: "string \<Rightarrow> bool" where
  "isObjectIdString str = (length str = 24 \<and> list_all isHexDigit str)"

fun inferTypeFromValue :: "JsValue \<Rightarrow> JsError + MongoFieldType" where
  "inferTypeFromValue JNull = Inr TNull"
| "inferTypeFromValue JUndefined = Inr TNull"
| "inferTypeFromValue (JString s) = Inr TString"
| "inferTypeFromValue (JNumber n) = Inr TNumber"
| "inferTypeFromValue (JBoolean b) = Inr TBoolean"
| "inferTypeFromValue JDate = Inr TDate"
| "inferTypeFromValue (JArray items) = Inr TArray"
| "inferTypeFromValue (JObject cls NoToString entries) = Inr TObject"
| "inferTypeFromValue (JObject cls ToStringNotCallable entries) =
     Inl (TypeError ''value.toString is not a function'')"
| "inferTypeFromValue (JObject cls ToStringThrows entries) = Inl (Thrown ''toString'')"
| "inferTypeFromValue (JObject cls (ToStringReturns str) entries) =
     (if isObjectIdString str then Inr TObjectId else Inr TObject)"
| "inferTypeFromValue JOther = Inr TString"

text \<open>The inputs on which \<open>value.toString()\<close> can be called without an exception.\<close>

fun toStringCallable :: "JsValue \<Rightarrow> bool" where
  "toStringCallable (JObject cls ToStringNotCallable entries) = False"
| "toStringCallable (JObject cls ToStringThrows entries) = False"
| "toStringCallable v = True"

fun isBinaryPayload :: "JsValue \<Rightarrow> bool" where
  "isBinaryPayload (JObject BinaryObject ts entries) = True"
| "isBinaryPayload v = False"

section \<open>The fallback column mapping (src/core/migration-engine.ts)\<close>

text \<open>\<open>.replace(/\./g, '_')\<close>\<close>

definition replaceDots :: "string \<Rightarrow> string" where
  "replaceDots s = map (\<lambda>c. if c = CHR ''.'' then CHR ''_'' else c) s"

text \<open>\<open>s.includes(t)\<close>: \<open>t\<close> occurs in \<open>s\<close> as a contiguous run.\<close>

fun includesStr :: "string \<Rightarrow> string \<Rightarrow> bool" where
  "includesStr [] t = (t = [])"
| "includesStr (c # cs) t = (prefix t (c # cs) \<or> includesStr cs t)"

text \<open>The test of the first \<open>find\<close>: the identifier column of the table.\<close>

definition isIdColumn :: "ColumnSchema \<Rightarrow> bool" where
  "isIdColumn col = (includesStr (toLowerCase (columnName col)) ''id''
     \<and> (truthy (unique col) \<or> truthy (primaryKey col)))"

text \<open>The test of the second \<open>find\<close>: a partial match in either direction.\<close>

definition partialMatch :: "string \<Rightarrow> ColumnSchema \<Rightarrow> bool" where
  "partialMatch sanitizedFieldName col =
     (includesStr (toLowerCase (columnName col)) sanitizedFieldName
      \<or> includesStr sanitizedFieldName (toLowerCase (columnName col)))"

text \<open>
  The loop over \<open>mongoSchema.fields\<close>; \<open>mappings\<close> is the array the loop pushes to.
\<close>

fun mapFields :: "ColumnSchema list \<Rightarrow> FieldSchema list \<Rightarrow> ColumnMapping list \<Rightarrow> ColumnMapping list" where
  "mapFields cols [] mappings = mappings"
| "mapFields cols (field # rest) mappings =
     (if fieldName field = ''_id'' then mapFields cols rest mappings
      else
        let sanitizedFieldName = toLowerCase (replaceDots (fieldName field)) in
        if sanitizedFieldName \<in> set (map columnName cols) then
          mapFields cols rest
            (mappings @ [\<lparr>mongoField = fieldName field, postgresColumn = sanitizedFieldName,
                          transformation = None\<rparr>])
        else
          (case find (partialMatch sanitizedFieldName) cols of
             Some matchingColumn \<Rightarrow>
               mapFields cols rest
                 (mappings @ [\<lparr>mongoField = fieldName field,
                               postgresColumn = columnName matchingColumn,
                               transformation = None\<rparr>])
           | None \<Rightarrow> mapFields cols rest mappings))"

definition createBasicColumnMappings :: "CollectionSchema \<Rightarrow> PostgresTableSchema \<Rightarrow> ColumnMapping list" where
  "createBasicColumnMappings mongoSchema pgSchema =
     (let mappings =
        (case find isIdColumn (columns pgSchema) of
           Some idColumn \<Rightarrow>
             [\<lparr>mongoField = ''_id'', postgresColumn = columnName idColumn, transformation = None\<rparr>]
         | None \<Rightarrow> [])
      in mapFields (columns pgSchema) (schemaFields mongoSchema) mappings)"

text \<open>A field other than \<open>_id\<close> for which the loop pushes a mapping.\<close>

definition fieldMatches :: "ColumnSchema list \<Rightarrow> FieldSchema \<Rightarrow> bool" where
  "fieldMatches cols field =
     (fieldName field \<noteq> ''_id''
      \<and> (toLowerCase (replaceDots (fieldName field)) \<in> set (map columnName cols)
         \<or> list_ex (partialMatch (toLowerCase (replaceDots (fieldName field)))) cols))"

text \<open>Example schemas: a field and a column that have nothing in common.\<close>

definition ageOnlySchema :: CollectionSchema where
  "ageOnlySchema = \<lparr>collectionName = ''people'',
     schemaFields = [\<lparr>fieldName = ''age'', fieldType = TNumber, isRequired = False, isArray = False\<rparr>],
     indexes = None\<rparr>"

definition titleOnlyTable :: PostgresTableSchema where
  "titleOnlyTable = \<lparr>tableName = ''people'',
     columns = [\<lparr>columnName = ''title'', columnType = TEXT, nullable = True,
                 primaryKey = None, unique = None\<rparr>]\<rparr>"

text \<open>
  The scenario of the specification: a document with \<open>_id\<close> and \<open>profile.age\<close> against the
  columns \<open>user_id\<close> (unique) and \<open>profile_age\<close>.
\<close>

definition profileSchema :: CollectionSchema where
  "profileSchema = \<lparr>collectionName = ''users'',
     schemaFields =
       [\<lparr>fieldName = ''_id'', fieldType = TObjectId, isRequired = False, isArray = False\<rparr>,
        \<lparr>fieldName = ''profile'', fieldType = TObject, isRequired = False, isArray = False\<rparr>,
        \<lparr>fieldName = ''profile.age'', fieldType = TNumber, isRequired = False, isArray = False\<rparr>],
     indexes = None\<rparr>"

definition profileTable :: PostgresTableSchema where
  "profileTable = \<lparr>tableName = ''users'',
     columns =
       [\<lparr>columnName = ''user_id'', columnType = TEXT, nullable = False,
          primaryKey = None, unique = Some True\<rparr>,
        \<lparr>columnName = ''profile_age'', columnType = INTEGER, nullable = True,
          primaryKey = None, unique = None\<rparr>]\<rparr>"

definition emptySchema :: CollectionSchema where
  "emptySchema = \<lparr>collectionName = ''empty'', schemaFields = [], indexes = None\<rparr>"

definition emptyTable :: PostgresTableSchema where
  "emptyTable = \<lparr>tableName = ''empty'', columns = []\<rparr>"

text \<open>
  A field name that starts with a capital letter outside ASCII, \<open>E\<close> with an acute accent
  (U+00C9), against a column whose name starts with the small letter (U+00E9).
\<close>

definition accentSchema :: CollectionSchema where
  "accentSchema = \<lparr>collectionName = ''schools'',
     schemaFields = [\<lparr>fieldName = CHR 0xC9 # ''cole'', fieldType = TString,
                       isRequired = False, isArray = False\<rparr>],
     indexes = None\<rparr>"

definition accentTable :: PostgresTableSchema where
  "accentTable = \<lparr>tableName = ''schools'',
     columns = [\<lparr>columnName = CHR 0xE9 # ''cole'', columnType = TEXT, nullable = True,
                 primaryKey = None, unique = None\<rparr>]\<rparr>"

section \<open>The insertion order of tables (DDLParser.getInsertionOrder)\<close>

text \<open>
  A JavaScript \<open>Map\<close> keeps its keys in the order of their first insertion: it is a list of
  pairs, \<open>set\<close> on a key that is present replaces the value in place, \<open>set\<close> on a new key
  appends. A \<open>Set\<close> is the list of its elements in insertion order.
\<close>

type_synonym ('k, 'v) JsMap = "('k \<times> 'v) list"

definition Map_has :: "('k, 'v) JsMap \<Rightarrow> 'k \<Rightarrow> bool" where
  "Map_has m k = (k \<in> set (map fst m))"

definition Map_get :: "('k, 'v) JsMap \<Rightarrow> 'k \<Rightarrow> 'v option" where
  "Map_get m k = map_of m k"

fun Map_set :: "('k, 'v) JsMap \<Rightarrow> 'k \<Rightarrow> 'v \<Rightarrow> ('k, 'v) JsMap" where
  "Map_set [] k v = [(k, v)]"
| "Map_set ((k', v') # m) k v = (if k' = k then (k, v) # m else (k', v') # Map_set m k v)"

definition Set_add :: "'a list \<Rightarrow> 'a \<Rightarrow> 'a list" where
  "Set_add s x = (if x \<in> set s then s else s @ [x])"

text \<open>
  The values of the \<open>inDegree\<close> map are JavaScript numbers: an integer count, or \<open>NaN\<close>, which
  is what \<open>undefined - 1\<close> gives.
\<close>

datatype JsNumber = Num int | NaN

type_synonym Graph = "(string, string list) JsMap"
type_synonym InDegree = "(string, JsNumber) JsMap"

text \<open>\<open>tables.forEach(table => { graph.set(table, new Set()); inDegree.set(table, 0); })\<close>\<close>

fun initGraph :: "string list \<Rightarrow> Graph \<times> InDegree \<Rightarrow> Graph \<times> InDegree" where
  "initGraph [] (graph, inDegree) = (graph, inDegree)"
| "initGraph (table # rest) (graph, inDegree) =
     initGraph rest (Map_set graph table [], Map_set inDegree table (Num 0))"

text \<open>\<open>(inDegree.get(rel.tableName) || 0) + 1\<close>: \<open>undefined\<close>, \<open>0\<close> and \<open>NaN\<close> are falsy.\<close>

fun orZeroPlusOne :: "JsNumber option \<Rightarrow> JsNumber" where
  "orZeroPlusOne (Some (Num n)) = Num (n + 1)"
| "orZeroPlusOne (Some NaN) = Num 1"
| "orZeroPlusOne None = Num 1"

text \<open>\<open>inDegree.get(dependentTable)! - 1\<close>\<close>

fun minusOne :: "JsNumber option \<Rightarrow> JsNumber" where
  "minusOne (Some (Num n)) = Num (n - 1)"
| "minusOne (Some NaN) = NaN"
| "minusOne None = NaN"

text \<open>
  The loop over the relationships. \<open>graph.get(rel.referencedTable)!.add(...)\<close> would raise a
  TypeError on \<open>undefined\<close>; that branch is kept, behind the two \<open>has\<close> tests.
\<close>

fun buildGraph :: "TableRelationship list \<Rightarrow> Graph \<times> InDegree \<Rightarrow> JsError + Graph \<times> InDegree" where
  "buildGraph [] (graph, inDegree) = Inr (graph, inDegree)"
| "buildGraph (rel # rest) (graph, inDegree) =
     (if Map_has graph (relTableName rel) \<and> Map_has graph (referencedTable rel) then
        (case Map_get graph (referencedTable rel) of
           None \<Rightarrow> Inl (TypeError ''Cannot read properties of undefined (reading add)'')
         | Some dependents \<Rightarrow>
             buildGraph rest
               (Map_set graph (referencedTable rel) (Set_add dependents (relTableName rel)),
                Map_set inDegree (relTableName rel)
                  (orZeroPlusOne (Map_get inDegree (relTableName rel)))))
      else buildGraph rest (graph, inDegree))"

text \<open>\<open>inDegree.forEach((degree, table) => { if (degree === 0) queue.push(table); })\<close>\<close>

definition seedQueue :: "InDegree \<Rightarrow> string list" where
  "seedQueue inDegree = map fst (filter (\<lambda>entry. snd entry = Num 0) inDegree)"

text \<open>
  The body of \<open>graph.get(table)!.forEach(dependentTable => ...)\<close>, on the pair of the
  \<open>inDegree\<close> map and the queue.
\<close>

fun processDependents :: "string list \<Rightarrow> InDegree \<times> string list \<Rightarrow> InDegree \<times> string list" where
  "processDependents [] (inDegree, queue) = (inDegree, queue)"
| "processDependents (dependentTable # rest) (inDegree, queue) =
     (let inDegree' = Map_set inDegree dependentTable (minusOne (Map_get inDegree dependentTable))
      in if Map_get inDegree' dependentTable = Some (Num 0)
         then processDependents rest (inDegree', queue @ [dependentTable])
         else processDependents rest (inDegree', queue))"

text \<open>The weight that decreases along the \<open>while\<close> loop.\<close>

fun degreeWeight :: "JsNumber \<Rightarrow> nat" where
  "degreeWeight (Num n) = nat n"
| "degreeWeight NaN = 0"

definition loopMeasure :: "InDegree \<times> string list \<Rightarrow> nat" where
  "loopMeasure s = sum_list (map (degreeWeight \<circ> snd) (fst s)) + length (snd s)"

lemma weight_Map_set_present:
  "Map_get m k = Some old \<Longrightarrow>
     sum_list (map (degreeWeight \<circ> snd) (Map_set m k v)) + degreeWeight old
       = sum_list (map (degreeWeight \<circ> snd) m) + degreeWeight v"
  by (induction m) (auto simp: Map_get_def)

lemma weight_Map_set_absent:
  "Map_get m k = None \<Longrightarrow>
     sum_list (map (degreeWeight \<circ> snd) (Map_set m k v))
       = sum_list (map (degreeWeight \<circ> snd) m) + degreeWeight v"
  by (induction m) (auto simp: Map_get_def)

lemma Map_get_Map_set: "Map_get (Map_set m k v) k' = (if k' = k then Some v else Map_get m k')"
  by (induction m) (auto simp: Map_get_def)

lemma loopMeasure_step:
  "loopMeasure
     (if Map_get (Map_set inDegree d (minusOne (Map_get inDegree d))) d = Some (Num 0)
      then (Map_set inDegree d (minusOne (Map_get inDegree d)), queue @ [d])
      else (Map_set inDegree d (minusOne (Map_get inDegree d)), queue))
   \<le> loopMeasure (inDegree, queue)"
proof (cases "Map_get inDegree d")
  case None
  then show ?thesis
    by (simp add: loopMeasure_def Map_get_Map_set weight_Map_set_absent)
next
  case (Some old)
  show ?thesis
  proof (cases old)
    case (Num n)
    from weight_Map_set_present [OF Some, of "Num (n - 1)"] Num
    show ?thesis
      using Some by (auto simp: loopMeasure_def Map_get_Map_set)
  next
    case NaN
    from weight_Map_set_present [OF Some, of NaN] NaN
    show ?thesis
      using Some by (auto simp: loopMeasure_def Map_get_Map_set)
  qed
qed

lemma loopMeasure_processDependents:
  "loopMeasure (processDependents deps s) \<le> loopMeasure s"
proof (induction deps s rule: processDependents.induct)
  case (1 inDegree queue)
  then show ?case by simp
next
  case (2 d rest inDegree queue)
  let ?i = "Map_set inDegree d (minusOne (Map_get inDegree d))"
  show ?case
  proof (cases "Map_get ?i d = Some (Num 0)")
    case True
    with 2 loopMeasure_step [of inDegree d queue] show ?thesis
      by (simp add: Let_def)
  next
    case False
    with 2 loopMeasure_step [of inDegree d queue] show ?thesis
      by (simp add: Let_def)
  qed
qed

text \<open>
  The \<open>while (queue.length > 0)\<close> loop. \<open>graph.get(table)!.forEach\<close> raises a TypeError when
  the table has no entry in \<open>graph\<close>.
\<close>

function kahnLoop :: "Graph \<Rightarrow> InDegree \<Rightarrow> string list \<Rightarrow> string list \<Rightarrow> JsError + string list" where
  "kahnLoop graph inDegree [] result = Inr result"
| "kahnLoop graph inDegree (table # queue) result =
     (case Map_get graph table of
        None \<Rightarrow> Inl (TypeError ''Cannot read properties of undefined (reading forEach)'')
      | Some dependents \<Rightarrow>
          kahnLoop graph
            (fst (processDependents dependents (inDegree, queue)))
            (snd (processDependents dependents (inDegree, queue)))
            (result @ [table]))"
  by pat_completeness auto
termination
proof (relation "measure (\<lambda>(graph, inDegree, queue, result). loopMeasure (inDegree, queue))")
  show "wf (measure (\<lambda>(graph, inDegree, queue, result). loopMeasure (inDegree, queue)))"
    by simp
next
  fix graph :: Graph and inDegree :: InDegree and table queue result dependents
  have "loopMeasure (processDependents dependents (inDegree, queue)) \<le> loopMeasure (inDegree, queue)"
    by (rule loopMeasure_processDependents)
  moreover have "loopMeasure (inDegree, queue) < loopMeasure (inDegree, table # queue)"
    by (simp add: loopMeasure_def)
  ultimately show "((graph, fst (processDependents dependents (inDegree, queue)),
           snd (processDependents dependents (inDegree, queue)), result @ [table]),
          graph, inDegree, table # queue, result)
         \<in> measure (\<lambda>(graph, inDegree, queue, result). loopMeasure (inDegree, queue))"
    by simp
qed

definition getInsertionOrder :: "string list \<Rightarrow> TableRelationship list \<Rightarrow> JsError + string list" where
  "getInsertionOrder tables relationships =
     (case buildGraph relationships (initGraph tables ([], [])) of
        Inl e \<Rightarrow> Inl e
      | Inr (graph, inDegree) \<Rightarrow>
          (case kahnLoop graph inDegree (seedQueue inDegree) [] of
             Inl e \<Rightarrow> Inl e
           | Inr result \<Rightarrow>
               if length result \<noteq> length tables
               then Inr (result @ filter (\<lambda>table. table \<notin> set result) tables)
               else Inr result))"

text \<open>A relationship \<open>tableName.columnName -> referencedTable.referencedColumn\<close>.\<close>

definition rel :: "string \<Rightarrow> string \<Rightarrow> string \<Rightarrow> string \<Rightarrow> TableRelationship" where
  "rel t c rt rc = \<lparr>relTableName = t, referencedTable = rt, relColumnName = c, referencedColumn = rc\<rparr>"

text \<open>
  What holds of the two maps once they are built, and of the loop state afterwards: the keys
  are the tables, every dependent is a table, every count is a number, and a table is in
  the queue or the result exactly when its count is no longer positive.
\<close>

definition graphOK :: "string list \<Rightarrow> Graph \<Rightarrow> bool" where
  "graphOK tables graph =
     (map fst graph = tables
      \<and> (\<forall>t deps. Map_get graph t = Some deps \<longrightarrow> set deps \<subseteq> set tables))"

definition degreeOK :: "string list \<Rightarrow> InDegree \<Rightarrow> bool" where
  "degreeOK tables inDegree =
     (map fst inDegree = tables
      \<and> (\<forall>t \<in> set tables. \<exists>n. Map_get inDegree t = Some (Num n) \<and> 0 \<le> n))"

definition loopInv :: "string list \<Rightarrow> InDegree \<Rightarrow> string list \<Rightarrow> string list \<Rightarrow> bool" where
  "loopInv tables inDegree queue result =
     (distinct (result @ queue) \<and> set (result @ queue) \<subseteq> set tables
      \<and> (\<forall>t \<in> set tables. \<exists>n. Map_get inDegree t = Some (Num n)
             \<and> ((t \<in> set (result @ queue)) = (n \<le> 0))))"

text \<open>
  The position of a table in a list, and the tables that are ready once \<open>emitted\<close> has been
  output: not yet emitted, with every table they reference inside the table list already
  emitted. The list is in input order.
\<close>

definition indexOf :: "'a list \<Rightarrow> 'a \<Rightarrow> nat" where
  "indexOf xs x = length (takeWhile (\<lambda>y. y \<noteq> x) xs)"

definition readyTables :: "string list \<Rightarrow> TableRelationship list \<Rightarrow> string list \<Rightarrow> string list" where
  "readyTables tables rels emitted =
     filter (\<lambda>t. t \<notin> set emitted
        \<and> list_all (\<lambda>r. \<not> (relTableName r = t \<and> referencedTable r \<in> set tables)
                        \<or> referencedTable r \<in> set emitted) rels) tables"

text \<open>
  The tie-breaking rule in the words of the specification: at every point of the output,
  the tables that are ready together come out in the order of their input positions.
\<close>

definition tiesByInputOrder :: "string list \<Rightarrow> TableRelationship list \<Rightarrow> string list \<Rightarrow> bool" where
  "tiesByInputOrder tables rels order =
     list_all (\<lambda>k. sorted_wrt (\<lambda>a b. indexOf order a < indexOf order b)
                      (readyTables tables rels (take k order)))
       [0..<Suc (length order)]"

text \<open>A table with a relationship to a table of the list: its in-degree is not zero.\<close>

definition hasDependency :: "string list \<Rightarrow> TableRelationship list \<Rightarrow> string \<Rightarrow> bool" where
  "hasDependency tables rels t =
     list_ex (\<lambda>r. relTableName r = t \<and> referencedTable r \<in> set tables) rels"

text \<open>
  The elements of a list in the order of their first occurrence, and the dependents of a
  table: the tables of the list with a relationship to it, in the order in which the
  relationships first name them.
\<close>

definition firstOccurrences :: "'a list \<Rightarrow> 'a list" where
  "firstOccurrences xs = rev (remdups (rev xs))"

definition dependentsOf :: "string list \<Rightarrow> TableRelationship list \<Rightarrow> string \<Rightarrow> string list" where
  "dependentsOf tables rels t =
     firstOccurrences
       (map relTableName
          (filter (\<lambda>r. referencedTable r = t \<and> relTableName r \<in> set tables) rels))"

section \<open>The schema analyser (src/core/mongo-analyzer.ts)\<close>

text \<open>The decimal form of an array index, as \<open>Object.entries\<close> gives it for an array.\<close>

fun showNat :: "nat \<Rightarrow> string" where
  "showNat n = (if n < 10 then [char_of (48 + n)]
                else showNat (n div 10) @ [char_of (48 + n mod 10)])"

definition arrayEntries :: "JsValue list \<Rightarrow> (string \<times> JsValue) list" where
  "arrayEntries items = zip (map showNat [0..<length items]) items"

type_synonym FieldMap = "(string, FieldSchema) JsMap"

text \<open>\<open>const fieldName = prefix ? `${prefix}.${key}` : key\<close>, with \<open>pathPrefix\<close> for \<open>prefix\<close>: the empty string is falsy.\<close>

definition joinPath :: "string \<Rightarrow> string \<Rightarrow> string" where
  "joinPath pathPrefix key = (if pathPrefix = [] then key else pathPrefix @ ''.'' @ key)"

fun isJArray :: "JsValue \<Rightarrow> bool" where
  "isJArray (JArray items) = True"
| "isJArray v = False"

text \<open>
  Lines 92 to 99: the first observation of a path creates its descriptor. The call of
  \<open>inferTypeFromValue\<close> may raise; the map is then as it was.
\<close>

definition registerField :: "string \<Rightarrow> JsValue \<Rightarrow> FieldMap \<Rightarrow> FieldMap \<times> JsError option" where
  "registerField name v fieldMap =
     (if \<not> Map_has fieldMap name then
        (case inferTypeFromValue v of
           Inl e \<Rightarrow> (fieldMap, Some e)
         | Inr t \<Rightarrow>
             (Map_set fieldMap name
                \<lparr>fieldName = name, fieldType = t, isRequired = False, isArray = isJArray v\<rparr>,
              None))
      else (fieldMap, None))"

text \<open>
  Lines 101 to 109: a value that is neither \<open>null\<close> nor \<open>undefined\<close> promotes the type of a
  descriptor whose type is still \<open>null\<close>, and only of such a descriptor. The descriptor is
  an object held by the map, so assigning to its member updates the entry in place; reading
  a member of a descriptor that is \<open>undefined\<close> raises a TypeError.
\<close>

definition promoteType :: "string \<Rightarrow> JsValue \<Rightarrow> FieldMap \<Rightarrow> FieldMap \<times> JsError option" where
  "promoteType name v fieldMap =
     (if v \<noteq> JNull \<and> v \<noteq> JUndefined then
        (case inferTypeFromValue v of
           Inl e \<Rightarrow> (fieldMap, Some e)
         | Inr currentType \<Rightarrow>
             (case Map_get fieldMap name of
                None \<Rightarrow>
                  (fieldMap, Some (TypeError ''Cannot read properties of undefined (reading type)''))
              | Some field \<Rightarrow>
                  if fieldType field = TNull
                  then (Map_set fieldMap name (field\<lparr>fieldType := currentType\<rparr>), None)
                  else (fieldMap, None)))
      else (fieldMap, None))"

text \<open>Lines 117 and 118: a non-empty array sets \<open>field.isArray = true\<close>.\<close>

definition markArray :: "string \<Rightarrow> JsValue \<Rightarrow> FieldMap \<Rightarrow> FieldMap \<times> JsError option" where
  "markArray name v fieldMap =
     (case v of
        JArray (first # others) \<Rightarrow>
          (case Map_get fieldMap name of
             None \<Rightarrow>
               (fieldMap, Some (TypeError ''Cannot set properties of undefined (setting isArray)''))
           | Some field \<Rightarrow> (Map_set fieldMap name (field\<lparr>isArray := True\<rparr>), None))
      | _ \<Rightarrow> (fieldMap, None))"

text \<open>
  The entries the recursion goes into: those of an object that is neither an array nor a
  Date (line 112), and those of the first item of a non-empty array when that item is an
  object or an array (lines 119 to 122; \<open>typeof\<close> of an array is \<open>object\<close>, and \<open>null\<close> is
  falsy).
\<close>

fun nestedEntries :: "JsValue \<Rightarrow> (string \<times> JsValue) list option" where
  "nestedEntries (JObject cls ts entries) = Some entries"
| "nestedEntries (JArray (JObject cls ts entries # others)) = Some entries"
| "nestedEntries (JArray (JArray items # others)) = Some (arrayEntries items)"
| "nestedEntries v = None"

definition entriesWeight :: "(string \<times> JsValue) list \<Rightarrow> nat" where
  "entriesWeight entries = sum_list (map (\<lambda>e. Suc (size (snd e))) entries)"

lemma zip_weight:
  "length ks = length items \<Longrightarrow>
   sum_list (map (\<lambda>e. Suc (size (snd e))) (zip ks items)) = size_list size items"
  by (induction ks items rule: list_induct2) simp_all

lemma arrayEntries_weight: "entriesWeight (arrayEntries items) = size_list size items"
  unfolding entriesWeight_def arrayEntries_def by (rule zip_weight) simp

lemma objectEntries_weight:
  "entriesWeight entries \<le> size_list (size_prod (\<lambda>k. 0) size) entries"
  unfolding entriesWeight_def by (induction entries) auto

lemma nestedEntries_weight: "nestedEntries v = Some entries \<Longrightarrow> entriesWeight entries < Suc (size v)"
proof (induction v rule: nestedEntries.induct)
  case (1 cls ts es)
  then show ?case using objectEntries_weight [of es] by simp
next
  case (2 cls ts es others)
  then show ?case using objectEntries_weight [of es] by simp
next
  case (3 items others)
  then have "entriesWeight entries = size_list size items"
    using arrayEntries_weight [of items] by simp
  then show ?case by simp
qed simp_all

text \<open>
  \<open>analyzeDocument(doc, fieldMap, prefix)\<close>, on the entries of \<open>doc\<close>. The map is mutated in
  place, so the result is the map as the call leaves it together with the exception, if
  one was raised.
\<close>

function analyzeDocument :: "(string \<times> JsValue) list \<Rightarrow> FieldMap \<Rightarrow> string \<Rightarrow> FieldMap \<times> JsError option" where
  "analyzeDocument [] fieldMap pathPrefix = (fieldMap, None)"
| "analyzeDocument ((key, v) # rest) fieldMap pathPrefix =
     (let name = joinPath pathPrefix key;
          registered = registerField name v fieldMap
      in if snd registered \<noteq> None then registered
         else
           let promoted = promoteType name v (fst registered)
           in if snd promoted \<noteq> None then promoted
              else
                let marked = markArray name v (fst promoted)
                in if snd marked \<noteq> None then marked
                   else
                     (case nestedEntries v of
                        None \<Rightarrow> analyzeDocument rest (fst marked) pathPrefix
                      | Some entries \<Rightarrow>
                          let nested = analyzeDocument entries (fst marked) name
                          in if snd nested \<noteq> None then nested
                             else analyzeDocument rest (fst nested) pathPrefix))"
  by pat_completeness auto
termination
proof (relation "measure (\<lambda>(entries, fieldMap, pathPrefix). entriesWeight entries)", goal_cases)
  case 1
  show ?case by simp
next
  case (2 key v rest fieldMap pathPrefix)
  show ?case by (simp add: entriesWeight_def)
next
  case (3 key v rest fieldMap pathPrefix name registered promoted marked entries)
  then show ?case
    using nestedEntries_weight [of v entries] by (simp add: entriesWeight_def)
next
  case (4 key v rest fieldMap pathPrefix name registered promoted marked entries nested)
  show ?case by (simp add: entriesWeight_def)
qed

text \<open>
  The loop of \<open>analyzeCollection\<close> over the sampled documents (lines 65 to 67), each
  document given by its entries. An exception ends the loop.
\<close>

fun analyzeDocuments :: "(string \<times> JsValue) list list \<Rightarrow> FieldMap \<Rightarrow> FieldMap \<times> JsError option" where
  "analyzeDocuments [] fieldMap = (fieldMap, None)"
| "analyzeDocuments (doc # docs) fieldMap =
     (let analysed = analyzeDocument doc fieldMap []
      in if snd analysed \<noteq> None then analysed
         else analyzeDocuments docs (fst analysed))"

text \<open>
  Every path that has a type other than \<open>null\<close> in the first map has the same type in the
  second.
\<close>

definition typesKept :: "FieldMap \<Rightarrow> FieldMap \<Rightarrow> bool" where
  "typesKept fieldMap fieldMap' =
     (\<forall>name field. Map_get fieldMap name = Some field \<and> fieldType field \<noteq> TNull \<longrightarrow>
        (\<exists>field'. Map_get fieldMap' name = Some field' \<and> fieldType field' = fieldType field))"

section \<open>Regular expressions, as the DDL parser uses them\<close>

text \<open>
  The patterns of \<open>DDLParser\<close> are regular expression literals. They are written here as
  terms of a small syntax, and matched the way a backtracking matcher does: \<open>matches r\<close>
  lists every way \<open>r\<close> can match at the start of the input, in the order in which the
  matcher tries them, each with the input that is left and the capture groups. The head of
  the list is the match JavaScript reports. A greedy star tries one more round before
  stopping, a lazy star stops first; a round that consumes nothing is refused.
\<close>

datatype Rx =
    Eps
  | Lit char
  | LitI char
  | Cls "char \<Rightarrow> bool"
  | Look "string \<Rightarrow> bool"
  | Seq Rx Rx
  | Opt Rx
  | Star Rx
  | LazyStar Rx
  | Grp nat Rx

type_synonym Captures = "(nat \<times> string) list"

function matches :: "Rx \<Rightarrow> string \<times> Captures \<Rightarrow> (string \<times> Captures) list" where
  "matches Eps st = [st]"
| "matches (Lit c) st =
     (case fst st of [] \<Rightarrow> [] | x # xs \<Rightarrow> if x = c then [(xs, snd st)] else [])"
| "matches (LitI c) st =
     (case fst st of [] \<Rightarrow> []
      | x # xs \<Rightarrow> if toLowerChar x = toLowerChar c then [(xs, snd st)] else [])"
| "matches (Cls p) st =
     (case fst st of [] \<Rightarrow> [] | x # xs \<Rightarrow> if p x then [(xs, snd st)] else [])"
| "matches (Look p) st = (if p (fst st) then [st] else [])"
| "matches (Seq a b) st = concat (map (matches b) (matches a st))"
| "matches (Opt r) st = matches r st @ [st]"
| "matches (Star r) st =
     concat (map (\<lambda>st'. if length (fst st') < length (fst st) then matches (Star r) st' else [])
                 (matches r st)) @ [st]"
| "matches (LazyStar r) st =
     st # concat (map (\<lambda>st'. if length (fst st') < length (fst st)
                                then matches (LazyStar r) st' else [])
                      (matches r st))"
| "matches (Grp i r) st =
     map (\<lambda>st'. (fst st', (i, take (length (fst st) - length (fst st')) (fst st)) # snd st'))
         (matches r st)"
  by pat_completeness auto
termination
  by (relation "measures [\<lambda>(r, st). size r, \<lambda>(r, st). length (fst st)]") auto

definition Plus :: "Rx \<Rightarrow> Rx" where
  "Plus r = Seq r (Star r)"

definition seqs :: "Rx list \<Rightarrow> Rx" where
  "seqs rs = foldr Seq rs Eps"

text \<open>A word of the pattern under the \<open>i\<close> flag.\<close>

definition word :: "string \<Rightarrow> Rx" where
  "word s = seqs (map LitI s)"

text \<open>
  \<open>\s\<close> on the code units below 256: tab, line feed, vertical tab, form feed, carriage
  return, space and the no-break space. \<open>.\<close> is any code unit but a line terminator.
\<close>

definition isSpace :: "char \<Rightarrow> bool" where
  "isSpace c = (c \<in> set [CHR 0x09, CHR 0x0A, CHR 0x0B, CHR 0x0C, CHR 0x0D, CHR 0x20, CHR 0xA0])"

definition isLineTerminator :: "char \<Rightarrow> bool" where
  "isLineTerminator c = (c = CHR 0x0A \<or> c = CHR 0x0D)"

text \<open>\<open>$\<close> under the \<open>m\<close> flag: the end of the input, or just before a line terminator.\<close>

fun atLineEnd :: "string \<Rightarrow> bool" where
  "atLineEnd [] = True"
| "atLineEnd (c # cs) = isLineTerminator c"

record RegExpMatch =
  matchIndex :: nat
  matchEnd :: nat
  groups :: Captures

text \<open>
  The leftmost match in \<open>s\<close>, which is the part of the text from offset \<open>i\<close> on.
\<close>

fun search :: "Rx \<Rightarrow> nat \<Rightarrow> string \<Rightarrow> RegExpMatch option" where
  "search r i [] =
     (case matches r ([], []) of
        [] \<Rightarrow> None
      | st # others \<Rightarrow> Some \<lparr>matchIndex = i, matchEnd = i, groups = snd st\<rparr>)"
| "search r i (c # cs) =
     (case matches r (c # cs, []) of
        [] \<Rightarrow> search r (Suc i) cs
      | st # others \<Rightarrow>
          Some \<lparr>matchIndex = i, matchEnd = i + (length (c # cs) - length (fst st)),
                groups = snd st\<rparr>)"

text \<open>\<open>regex.exec(text)\<close> for a regular expression with the \<open>g\<close> flag and the given \<open>lastIndex\<close>.\<close>

definition exec :: "Rx \<Rightarrow> string \<Rightarrow> nat \<Rightarrow> RegExpMatch option" where
  "exec r text lastIndex =
     (if length text < lastIndex then None else search r lastIndex (drop lastIndex text))"

lemma search_bounds:
  "search r i s = Some m \<Longrightarrow>
     i \<le> matchIndex m \<and> matchIndex m \<le> matchEnd m \<and> matchEnd m \<le> i + length s"
proof (induction s arbitrary: i)
  case Nil
  then show ?case by (auto split: list.splits)
next
  case (Cons c cs)
  show ?case
  proof (cases "matches r (c # cs, [])")
    case Nil
    with Cons.prems have "search r (Suc i) cs = Some m" by simp
    from Cons.IH [OF this] show ?thesis by simp
  next
    case (Cons st others)
    with Cons.prems show ?thesis by auto
  qed
qed

lemma exec_bounds:
  "exec r text lastIndex = Some m \<Longrightarrow>
     lastIndex \<le> matchIndex m \<and> matchIndex m \<le> matchEnd m \<and> matchEnd m \<le> length text"
  unfolding exec_def using search_bounds [of r lastIndex "drop lastIndex text" m]
  by (auto split: if_splits)

text \<open>
  \<open>while ((match = regex.exec(text)) !== null) body\<close>, with the state the body works on. The
  body may raise an exception, which ends the loop. \<open>exec\<close> leaves \<open>lastIndex\<close> at the end of
  the match; after an empty match the next call finds the same match again, so the loop
  never ends: that is the result \<open>None\<close>.
\<close>

function whileExec :: "Rx \<Rightarrow> string \<Rightarrow> (RegExpMatch \<Rightarrow> 's \<Rightarrow> JsError + 's) \<Rightarrow> nat \<Rightarrow> 's
    \<Rightarrow> ('s \<times> JsError option) option" where
  "whileExec r text body lastIndex state =
     (case exec r text lastIndex of
        None \<Rightarrow> Some (state, None)
      | Some m \<Rightarrow>
          if matchEnd m = matchIndex m then None
          else
            (case body m state of
               Inl e \<Rightarrow> Some (state, Some e)
             | Inr state' \<Rightarrow> whileExec r text body (matchEnd m) state'))"
  by pat_completeness auto
termination
proof (relation "measure (\<lambda>(r, text, body, lastIndex, state). length text - lastIndex)", goal_cases)
  case 1
  show ?case by simp
next
  case (2 r input body lastIndex state m state')
  from exec_bounds [OF 2(1)] 2(2) show ?case by simp arith
qed

text \<open>
  \<open>text.replace(regex, replacement)\<close> for a regular expression with the \<open>g\<close> flag and a
  replacement without \<open>$\<close>: the matches are replaced from left to right; after an empty
  match the scan moves on by one code unit.
\<close>

function replaceAll :: "Rx \<Rightarrow> string \<Rightarrow> string \<Rightarrow> string" where
  "replaceAll r replacement [] =
     (case matches r ([], []) of [] \<Rightarrow> [] | st # others \<Rightarrow> replacement)"
| "replaceAll r replacement (c # cs) =
     (case matches r (c # cs, []) of
        [] \<Rightarrow> c # replaceAll r replacement cs
      | st # others \<Rightarrow>
          if length (fst st) < length (c # cs)
          then replacement @ replaceAll r replacement (fst st)
          else replacement @ c # replaceAll r replacement cs)"
  by pat_completeness auto
termination
  by (relation "measure (\<lambda>(r, replacement, s). length s)") auto

text \<open>\<open>String.prototype.trim\<close>\<close>

definition trim :: "string \<Rightarrow> string" where
  "trim s = rev (dropWhile isSpace (rev (dropWhile isSpace s)))"

section \<open>The DDL parser (DDLParser.parseRelationships)\<close>

text \<open>\<open>/--.*$/gm\<close>\<close>

definition lineCommentRegex :: Rx where
  "lineCommentRegex =
     seqs [Lit CHR ''-'', Lit CHR ''-'', Star (Cls (\<lambda>c. \<not> isLineTerminator c)), Look atLineEnd]"

text \<open>\<open>/\/\*[\s\S]*?\*\//g\<close>\<close>

definition blockCommentRegex :: Rx where
  "blockCommentRegex =
     seqs [Lit CHR ''/'', Lit CHR ''*'', LazyStar (Cls (\<lambda>c. True)), Lit CHR ''*'', Lit CHR ''/'']"

text \<open>\<open>/\s+/g\<close>\<close>

definition whitespaceRegex :: Rx where
  "whitespaceRegex = Plus (Cls isSpace)"

definition cleanDDL :: "string \<Rightarrow> string" where
  "cleanDDL ddlContent =
     trim (replaceAll whitespaceRegex '' ''
            (replaceAll blockCommentRegex []
              (replaceAll lineCommentRegex [] ddlContent)))"

text \<open>\<open>/FOREIGN\s+KEY\s*\(\s*([^)]+)\s*\)\s+REFERENCES\s+([^\s(]+)\s*\(\s*([^)]+)\s*\)/gi\<close>\<close>

definition foreignKeyRegex :: Rx where
  "foreignKeyRegex =
     seqs [word ''FOREIGN'', Plus (Cls isSpace), word ''KEY'', Star (Cls isSpace),
           Lit CHR ''('', Star (Cls isSpace), Grp 1 (Plus (Cls (\<lambda>c. c \<noteq> CHR '')''))),
           Star (Cls isSpace), Lit CHR '')'', Plus (Cls isSpace), word ''REFERENCES'',
           Plus (Cls isSpace), Grp 2 (Plus (Cls (\<lambda>c. \<not> isSpace c \<and> c \<noteq> CHR ''(''))),
           Star (Cls isSpace), Lit CHR ''('', Star (Cls isSpace),
           Grp 3 (Plus (Cls (\<lambda>c. c \<noteq> CHR '')''))), Star (Cls isSpace), Lit CHR '')'']"

text \<open>\<open>/(\w+)\s+[^,)]*REFERENCES\s+([^\s(]+)\s*\(\s*([^)]+)\s*\)/gi\<close>\<close>

definition inlineReferencesRegex :: Rx where
  "inlineReferencesRegex =
     seqs [Grp 1 (Plus (Cls isWordChar)), Plus (Cls isSpace),
           Star (Cls (\<lambda>c. c \<noteq> CHR '','' \<and> c \<noteq> CHR '')'')), word ''REFERENCES'',
           Plus (Cls isSpace), Grp 2 (Plus (Cls (\<lambda>c. \<not> isSpace c \<and> c \<noteq> CHR ''(''))),
           Star (Cls isSpace), Lit CHR ''('', Star (Cls isSpace),
           Grp 3 (Plus (Cls (\<lambda>c. c \<noteq> CHR '')''))), Star (Cls isSpace), Lit CHR '')'']"

text \<open>\<open>/CREATE\s+TABLE\s+(?:IF\s+NOT\s+EXISTS\s+)?([^\s(]+)/gi\<close>\<close>

definition createTableRegex :: Rx where
  "createTableRegex =
     seqs [word ''CREATE'', Plus (Cls isSpace), word ''TABLE'', Plus (Cls isSpace),
           Opt (seqs [word ''IF'', Plus (Cls isSpace), word ''NOT'', Plus (Cls isSpace),
                      word ''EXISTS'', Plus (Cls isSpace)]),
           Grp 1 (Plus (Cls (\<lambda>c. \<not> isSpace c \<and> c \<noteq> CHR ''('')))]"

text \<open>
  \<open>match[i]\<close>; calling \<open>trim\<close> on a group that did not take part raises a TypeError.
\<close>

definition groupText :: "RegExpMatch \<Rightarrow> nat \<Rightarrow> JsError + string" where
  "groupText m i =
     (case map_of (groups m) i of
        None \<Rightarrow> Inl (TypeError ''Cannot read properties of undefined (reading trim)'')
      | Some t \<Rightarrow> Inr t)"

text \<open>\<open>.replace(/["`]/g, '')\<close>\<close>

definition stripQuotes :: "string \<Rightarrow> string" where
  "stripQuotes s = filter (\<lambda>c. c \<noteq> CHR 0x22 \<and> c \<noteq> CHR 0x60) s"

text \<open>
  \<open>findTableNameForConstraint\<close>: the name in the last \<open>CREATE TABLE\<close> before the constraint.
  The state of the loop is \<open>lastTableName\<close>. The outer \<open>None\<close> is a loop that does not end.
\<close>

definition findTableNameForConstraint :: "string \<Rightarrow> nat \<Rightarrow> (string option \<times> JsError option) option" where
  "findTableNameForConstraint ddlContent constraintIndex =
     whileExec createTableRegex (take constraintIndex ddlContent)
       (\<lambda>m lastTableName.
          case groupText m 1 of
            Inl e \<Rightarrow> Inl e
          | Inr t \<Rightarrow> Inr (Some (stripQuotes (trim t))))
       0 None"

text \<open>
  The relationships found so far, each with \<open>match.index\<close>, the offset of its constraint in
  the cleaned text. The offset is kept for stating the order; \<open>parseRelationships\<close> drops it.
\<close>

type_synonym Found = "(nat \<times> TableRelationship) list"

text \<open>
  The body of the first loop. \<open>if (tableName)\<close> is false on \<open>null\<close> and on the empty string.
  A loop inside \<open>findTableNameForConstraint\<close> that does not end is passed on as an exception
  of its own kind, so that the outer loop stops there.
\<close>

definition noReturn :: JsError where
  "noReturn = Thrown ''findTableNameForConstraint does not return''"

definition foreignKeyBody :: "string \<Rightarrow> RegExpMatch \<Rightarrow> Found \<Rightarrow> JsError + Found" where
  "foreignKeyBody cleanedDDL m relationships =
     (case groupText m 1 of Inl e \<Rightarrow> Inl e | Inr g1 \<Rightarrow>
      case groupText m 2 of Inl e \<Rightarrow> Inl e | Inr g2 \<Rightarrow>
      case groupText m 3 of Inl e \<Rightarrow> Inl e | Inr g3 \<Rightarrow>
        (let columnName = stripQuotes (trim g1);
             referencedTable = stripQuotes (trim g2);
             referencedColumn = stripQuotes (trim g3)
         in case findTableNameForConstraint cleanedDDL (matchIndex m) of
              None \<Rightarrow> Inl noReturn
            | Some (t, Some e) \<Rightarrow> Inl e
            | Some (None, None) \<Rightarrow> Inr relationships
            | Some (Some name, None) \<Rightarrow>
                if name = [] then Inr relationships
                else Inr (relationships @
                       [(matchIndex m,
                         \<lparr>relTableName = name, referencedTable = referencedTable,
                          relColumnName = columnName, referencedColumn = referencedColumn\<rparr>)])))"

text \<open>The body of the second loop: \<open>columnName\<close> is \<open>match[1].trim()\<close>, with its quotes.\<close>

definition inlineBody :: "string \<Rightarrow> RegExpMatch \<Rightarrow> Found \<Rightarrow> JsError + Found" where
  "inlineBody cleanedDDL m relationships =
     (case groupText m 1 of Inl e \<Rightarrow> Inl e | Inr g1 \<Rightarrow>
      case groupText m 2 of Inl e \<Rightarrow> Inl e | Inr g2 \<Rightarrow>
      case groupText m 3 of Inl e \<Rightarrow> Inl e | Inr g3 \<Rightarrow>
        (let columnName = trim g1;
             referencedTable = stripQuotes (trim g2);
             referencedColumn = stripQuotes (trim g3)
         in case findTableNameForConstraint cleanedDDL (matchIndex m) of
              None \<Rightarrow> Inl noReturn
            | Some (t, Some e) \<Rightarrow> Inl e
            | Some (None, None) \<Rightarrow> Inr relationships
            | Some (Some name, None) \<Rightarrow>
                if name = [] then Inr relationships
                else Inr (relationships @
                       [(matchIndex m,
                         \<lparr>relTableName = name, referencedTable = referencedTable,
                          relColumnName = columnName, referencedColumn = referencedColumn\<rparr>)])))"

text \<open>
  \<open>parseRelationships\<close> with the offsets. An exception in the \<open>try\<close> block is caught and
  logged, and the relationships pushed so far are returned. \<open>None\<close>: the call does not
  return.
\<close>

definition parseConstraints :: "string \<Rightarrow> Found option" where
  "parseConstraints ddlContent =
     (let cleanedDDL = cleanDDL ddlContent in
      case whileExec foreignKeyRegex cleanedDDL (foreignKeyBody cleanedDDL) 0 [] of
        None \<Rightarrow> None
      | Some (relationships, Some e) \<Rightarrow> if e = noReturn then None else Some relationships
      | Some (relationships, None) \<Rightarrow>
          (case whileExec inlineReferencesRegex cleanedDDL (inlineBody cleanedDDL) 0 relationships of
             None \<Rightarrow> None
           | Some (relationships', Some e) \<Rightarrow> if e = noReturn then None else Some relationships'
           | Some (relationships', None) \<Rightarrow> Some relationships'))"

definition parseRelationships :: "string \<Rightarrow> TableRelationship list option" where
  "parseRelationships ddlContent = map_option (map snd) (parseConstraints ddlContent)"

text \<open>A pattern that cannot match the empty string: some part of it takes a character.\<close>

fun consumes :: "Rx \<Rightarrow> bool" where
  "consumes (Lit c) = True"
| "consumes (LitI c) = True"
| "consumes (Cls p) = True"
| "consumes (Seq a b) = (consumes a \<or> consumes b)"
| "consumes (Grp i r) = consumes r"
| "consumes r = False"

text \<open>A capture group that takes part in every match of the pattern: it stands under no
  quantifier.\<close>

fun binds :: "nat \<Rightarrow> Rx \<Rightarrow> bool" where
  "binds i (Seq a b) = (binds i a \<or> binds i b)"
| "binds i (Grp j r) = (j = i \<or> binds i r)"
| "binds i r = False"

text \<open>
  The matches that a loop \<open>while ((match = regex.exec(text)) !== null)\<close> goes through, one
  after the other, when it starts with the given \<open>lastIndex\<close>.
\<close>

function matchesFrom :: "Rx \<Rightarrow> string \<Rightarrow> nat \<Rightarrow> RegExpMatch list" where
  "matchesFrom r input lastIndex =
     (case exec r input lastIndex of
        None \<Rightarrow> []
      | Some m \<Rightarrow>
          if matchEnd m = matchIndex m then []
          else m # matchesFrom r input (matchEnd m))"
  by pat_completeness auto
termination
proof (relation "measure (\<lambda>(r, input, lastIndex). length input - lastIndex)", goal_cases)
  case 1
  show ?case by simp
next
  case (2 r input lastIndex m)
  from exec_bounds [OF 2(1)] 2(2) show ?case by simp arith
qed

text \<open>The text of a capture group of a match.\<close>

definition groupOf :: "RegExpMatch \<Rightarrow> nat \<Rightarrow> string" where
  "groupOf m i = (case map_of (groups m) i of Some t \<Rightarrow> t | None \<Rightarrow> [])"

text \<open>
  The table a constraint belongs to: the name in the last \<open>CREATE TABLE\<close> that ends before
  the offset of the constraint, without its quotes.
\<close>

definition ownerOf :: "string \<Rightarrow> RegExpMatch \<Rightarrow> string option" where
  "ownerOf cleanedDDL m =
     (case matchesFrom createTableRegex (take (matchIndex m) cleanedDDL) 0 of
        [] \<Rightarrow> None
      | c # cs \<Rightarrow> Some (stripQuotes (trim (groupOf (last (c # cs)) 1))))"

definition hasOwner :: "string \<Rightarrow> RegExpMatch \<Rightarrow> bool" where
  "hasOwner cleanedDDL m =
     (case ownerOf cleanedDDL m of None \<Rightarrow> False | Some name \<Rightarrow> name \<noteq> [])"

text \<open>
  What one match adds to the result: one relationship when the constraint has an owning
  table with a non-empty name, nothing otherwise.
\<close>

definition explicitEntries :: "string \<Rightarrow> RegExpMatch \<Rightarrow> Found" where
  "explicitEntries cleanedDDL m =
     (case ownerOf cleanedDDL m of
        None \<Rightarrow> []
      | Some name \<Rightarrow>
          if name = [] then []
          else [(matchIndex m,
                 \<lparr>relTableName = name,
                  referencedTable = stripQuotes (trim (groupOf m 2)),
                  relColumnName = stripQuotes (trim (groupOf m 1)),
                  referencedColumn = stripQuotes (trim (groupOf m 3))\<rparr>)])"

definition inlineEntries :: "string \<Rightarrow> RegExpMatch \<Rightarrow> Found" where
  "inlineEntries cleanedDDL m =
     (case ownerOf cleanedDDL m of
        None \<Rightarrow> []
      | Some name \<Rightarrow>
          if name = [] then []
          else [(matchIndex m,
                 \<lparr>relTableName = name,
                  referencedTable = stripQuotes (trim (groupOf m 2)),
                  relColumnName = trim (groupOf m 1),
                  referencedColumn = stripQuotes (trim (groupOf m 3))\<rparr>)])"

text \<open>
  The relationships of the two passes over the cleaned text, each with the offset of its
  constraint: one entry for every match that has an owning table, match after match.
\<close>

definition explicitPass :: "string \<Rightarrow> Found" where
  "explicitPass cleanedDDL =
     concat (map (explicitEntries cleanedDDL) (matchesFrom foreignKeyRegex cleanedDDL 0))"

definition inlinePass :: "string \<Rightarrow> Found" where
  "inlinePass cleanedDDL =
     concat (map (inlineEntries cleanedDDL) (matchesFrom inlineReferencesRegex cleanedDDL 0))"

text \<open>
  Two scripts. In the first the inline reference (\<open>author\<close>) stands before the explicit
  constraint (\<open>cat\<close>); in the second the same explicit constraint is written twice.
\<close>

definition inlineFirstDDL :: string where
  "inlineFirstDDL =
     ''CREATE TABLE posts (id INT, author INT REFERENCES users(id), FOREIGN KEY (cat) REFERENCES cats(id))''"

definition duplicateDDL :: string where
  "duplicateDDL =
     ''CREATE TABLE t (FOREIGN KEY (a) REFERENCES u(b), FOREIGN KEY (a) REFERENCES u(b))''"

text \<open>
  The order of the specification: the relationships stand in the order of the offsets of
  their constraints in the text.
\<close>

definition inTextOrder :: "Found \<Rightarrow> bool" where
  "inTextOrder found = sorted (map fst found)"

section \<open>The collaborators of the migration engine\<close>

text \<open>
  A document is a plain object, given by its entries. Counts of documents and the batch
  size are natural numbers.
\<close>

type_synonym Document = "(string \<times> JsValue) list"








text \<open>
  What the program asks of the JavaScript runtime and of the libraries it calls. The
  outside world (the two databases, the file system, the advisor, the clock) is a value
  of a type \<open>'w\<close> about which nothing is assumed; every operation takes the world and
  returns the next one with its answer, and may answer with an exception.
\<close>

record JsRuntime =
  primitiveToString :: "JsValue \<Rightarrow> string"
  jsonStringify :: "JsValue \<Rightarrow> JsError + JsValue"
  hasProperty :: "string \<Rightarrow> JsValue \<Rightarrow> bool"
  getProperty :: "JsValue \<Rightarrow> string \<Rightarrow> JsValue"

record RawIndex =
  rawKey :: "string list"
  rawUnique :: "bool option"
  rawName :: string

record RawColumn =
  column_name :: string
  data_type :: string
  is_nullable :: string

record 'w MongoDriver =
  newMongoClient :: "string \<Rightarrow> 'w \<Rightarrow> JsError option \<times> 'w"
  clientConnect :: "'w \<Rightarrow> JsError option \<times> 'w"
  urlPathname :: "string \<Rightarrow> JsError + string"
  clientDb :: "string \<Rightarrow> 'w \<Rightarrow> JsError option \<times> 'w"
  clientClose :: "'w \<Rightarrow> JsError option \<times> 'w"
  listCollections :: "'w \<Rightarrow> (JsError + string list) \<times> 'w"
  aggregateSample :: "string \<Rightarrow> nat \<Rightarrow> 'w \<Rightarrow> (JsError + Document list) \<times> 'w"
  listIndexes :: "string \<Rightarrow> 'w \<Rightarrow> (JsError + RawIndex list) \<times> 'w"
  countDocuments :: "string \<Rightarrow> 'w \<Rightarrow> (JsError + nat) \<times> 'w"
  findSkipLimit :: "string \<Rightarrow> nat \<Rightarrow> nat \<Rightarrow> 'w \<Rightarrow> (JsError + Document list) \<times> 'w"
  findOne :: "string \<Rightarrow> 'w \<Rightarrow> (JsError + Document option) \<times> 'w"

record 'w PgDriver =
  newPgClient :: "string \<Rightarrow> 'w \<Rightarrow> JsError option \<times> 'w"
  pgClientConnect :: "'w \<Rightarrow> JsError option \<times> 'w"
  pgClientEnd :: "'w \<Rightarrow> JsError option \<times> 'w"
  queryTableExists :: "string \<Rightarrow> 'w \<Rightarrow> (JsError + bool) \<times> 'w"
  queryColumns :: "string \<Rightarrow> 'w \<Rightarrow> (JsError + RawColumn list) \<times> 'w"
  queryPrimaryKey :: "string \<Rightarrow> 'w \<Rightarrow> (JsError + string list) \<times> 'w"
  queryStatement :: "string \<Rightarrow> JsValue list \<Rightarrow> 'w \<Rightarrow> JsError option \<times> 'w"

record 'w Advisor =
  askSchema :: "CollectionSchema \<Rightarrow> 'w \<Rightarrow> PostgresTableSchema option \<times> 'w"
  askColumnMapping :: "Document \<Rightarrow> PostgresTableSchema \<Rightarrow> 'w \<Rightarrow> ColumnMapping list option \<times> 'w"
  askTransformation :: "Document list \<Rightarrow> PostgresTableSchema \<Rightarrow> 'w \<Rightarrow> 'w"
  askRelationships :: "CollectionSchema list \<Rightarrow> 'w \<Rightarrow> 'w"

record 'w Env =
  runtime :: JsRuntime
  mongo :: "'w MongoDriver"
  pg :: "'w PgDriver"
  advisor :: "'w Advisor"
  fsAccess :: "string \<Rightarrow> 'w \<Rightarrow> JsError option \<times> 'w"
  fsReadFile :: "string \<Rightarrow> 'w \<Rightarrow> (JsError + string) \<times> 'w"
  dateNow :: "'w \<Rightarrow> int \<times> 'w"

text \<open>
  The state of one run: the world, the members of the engine and of its collaborators'
  wrappers that change (\<open>client\<close> and \<open>db\<close> of the analyser, \<open>client\<close> of the manager, \<open>openai\<close>
  of the assistant, \<open>tableRelationships\<close>), and the result being accumulated. Two counters
  are kept for stating properties and read by no function: the number of \<open>INSERT\<close>
  statements sent and the number of documents that \<open>getDocuments\<close> returned.
\<close>

record 'w EngineState =
  world :: 'w
  mongoClientSet :: bool
  mongoDbSet :: bool
  pgClientSet :: bool
  openAiSet :: bool
  tableRelationships :: "TableRelationship list"
  migrationResult :: MigrationResult
  insertsSent :: nat
  documentsFetched :: nat


definition callWorldVoid :: "('w \<Rightarrow> JsError option \<times> 'w) \<Rightarrow> 'w EngineState \<Rightarrow> (JsError + unit) \<times> 'w EngineState" where
  "callWorldVoid f s =
     (case f (world s) of
        (None, w) \<Rightarrow> (Inr (), s\<lparr>world := w\<rparr>)
      | (Some e, w) \<Rightarrow> (Inl e, s\<lparr>world := w\<rparr>))"


section \<open>MongoAnalyzer (src/core/mongo-analyzer.ts)\<close>


definition MongoAnalyzer_disconnect :: "'w Env \<Rightarrow> 'w EngineState \<Rightarrow> (JsError + unit) \<times> 'w EngineState" where
  "MongoAnalyzer_disconnect env s =
     (if mongoClientSet s then callWorldVoid (clientClose (mongo env)) s else (Inr (), s))"








section \<open>PostgresManager (src/core/postgres-manager.ts)\<close>


definition PostgresManager_disconnect :: "'w Env \<Rightarrow> 'w EngineState \<Rightarrow> (JsError + unit) \<times> 'w EngineState" where
  "PostgresManager_disconnect env s =
     (if pgClientSet s then callWorldVoid (pgClientEnd (pg env)) s else (Inr (), s))"






























section \<open>AIAssistant (src/core/ai-assistant.ts)\<close>





section \<open>MigrationEngine (src/core/migration-engine.ts)\<close>






















text \<open>
  Two relations between the state before and after a step: the result is as it was; and
  the result and both counters are as they were.
\<close>

definition keepsResult :: "'w EngineState \<Rightarrow> 'w EngineState \<Rightarrow> bool" where
  "keepsResult s s' = (migrationResult s' = migrationResult s)"

definition keepsCounts :: "'w EngineState \<Rightarrow> 'w EngineState \<Rightarrow> bool" where
  "keepsCounts s s' =
     (migrationResult s' = migrationResult s \<and> insertsSent s' = insertsSent s
      \<and> documentsFetched s' = documentsFetched s)"


















section \<open>Canonical identifiers: idempotence\<close>

lemma caseUnits_length: "length upperCaseUnits = length lowerCaseUnits"
  by (simp add: upperCaseUnits_def lowerCaseUnits_def)

lemma upper_to_lower_all:
  "list_all (\<lambda>c. isLower (toLowerChar c)) ''ABCDEFGHIJKLMNOPQRSTUVWXYZ''"
  by code_simp

lemma upper_to_lower: "isUpper c \<Longrightarrow> isLower (toLowerChar c)"
  using upper_to_lower_all unfolding isUpper_def list_all_iff by blast

lemma not_cased_fixed: "c \<notin> set upperCaseUnits \<Longrightarrow> toLowerChar c = c"
proof -
  assume "c \<notin> set upperCaseUnits"
  then have "map_of (zip upperCaseUnits lowerCaseUnits) c = None"
    by (simp only: map_of_zip_is_None [OF caseUnits_length] not_False_eq_True)
  then show ?thesis
    unfolding toLowerChar_def by (simp only: option.case)
qed

lemma lower_not_cased_all:
  "list_all (\<lambda>c. c \<notin> set upperCaseUnits) ''abcdefghijklmnopqrstuvwxyz''"
  by code_simp

lemma lower_not_cased: "isLower c \<Longrightarrow> c \<notin> set upperCaseUnits"
  using lower_not_cased_all unfolding isLower_def list_all_iff by blast

lemma digit_not_cased_all: "list_all (\<lambda>c. c \<notin> set upperCaseUnits) ''0123456789''"
  by code_simp

lemma digit_not_cased: "isDigit c \<Longrightarrow> c \<notin> set upperCaseUnits"
  using digit_not_cased_all unfolding isDigit_def list_all_iff by blast

lemma upper_is_cased: "isUpper c \<Longrightarrow> c \<in> set upperCaseUnits"
  unfolding isUpper_def upperCaseUnits_def set_append by (rule UnI1)

lemma digit_not_lower_all: "list_all (\<lambda>c. \<not> isLower c) ''0123456789''"
  by code_simp

lemma digit_not_lower: "isDigit c \<Longrightarrow> \<not> isLower c"
  using digit_not_lower_all unfolding isDigit_def list_all_iff by blast

lemma cased_not_digit: "c \<in> set upperCaseUnits \<Longrightarrow> \<not> isDigit c"
  using digit_not_cased by blast

lemma lowered_not_digit_all: "list_all (\<lambda>c. \<not> isDigit (toLowerChar c)) upperCaseUnits"
  by code_simp

lemma lowered_not_digit: "c \<in> set upperCaseUnits \<Longrightarrow> \<not> isDigit (toLowerChar c)"
  using lowered_not_digit_all unfolding list_all_iff by blast

lemma underscore_facts:
  "isWordChar CHR ''_''" "\<not> isDigit CHR ''_''" "isCanonChar CHR ''_''" "\<not> isUpper CHR ''_''"
  "CHR ''_'' \<notin> set upperCaseUnits"
  unfolding isWordChar_def isCanonChar_def isDigit_def isUpper_def upperCaseUnits_def
  by simp_all

lemma canon_not_cased: "isCanonChar c \<Longrightarrow> c \<notin> set upperCaseUnits"
  unfolding isCanonChar_def
  using lower_not_cased digit_not_cased underscore_facts(5) by blast

lemma canon_not_upper: "isCanonChar c \<Longrightarrow> \<not> isUpper c"
  using canon_not_cased upper_is_cased by blast

lemma canon_fix_char: "isCanonChar c \<Longrightarrow> toLowerChar c = c \<and> isWordChar c"
  using canon_not_cased [of c] not_cased_fixed [of c]
  unfolding isCanonChar_def isWordChar_def by blast

lemma toLowerChar_canon: "isWordChar c \<Longrightarrow> isCanonChar (toLowerChar c)"
proof (cases "isUpper c")
  case True
  then show ?thesis
    using upper_to_lower [of c] by (simp add: isCanonChar_def)
next
  case False
  assume "isWordChar c"
  with False have "isCanonChar c"
    by (simp add: isCanonChar_def isWordChar_def)
  then show ?thesis
    using canon_fix_char [of c] by simp
qed

lemma toLowerChar_digit: "isDigit (toLowerChar c) = isDigit c"
proof (cases "c \<in> set upperCaseUnits")
  case True
  then show ?thesis
    using cased_not_digit [of c] lowered_not_digit [of c] by simp
next
  case False
  then show ?thesis by (simp add: not_cased_fixed)
qed

lemma replaceInvalid_word: "\<forall>c \<in> set (replaceInvalid s). isWordChar c"
  unfolding replaceInvalid_def by (auto simp: underscore_facts)

lemma prefixLeadingDigit_word:
  "\<forall>c \<in> set s. isWordChar c \<Longrightarrow> \<forall>c \<in> set (prefixLeadingDigit s). isWordChar c"
  by (cases s) (auto simp: underscore_facts)

lemma prefixLeadingDigit_head: "prefixLeadingDigit s = c # cs \<Longrightarrow> \<not> isDigit c"
  by (cases s) (auto simp: underscore_facts split: if_splits)

lemma sanitize_canon: "\<forall>c \<in> set (sanitizeIdentifier s). isCanonChar c"
  unfolding sanitizeIdentifier_def toLowerCase_def
  using prefixLeadingDigit_word [OF replaceInvalid_word, of s]
  by (auto intro: toLowerChar_canon)

lemma sanitize_head: "sanitizeIdentifier s = c # cs \<Longrightarrow> \<not> isDigit c"
  unfolding sanitizeIdentifier_def toLowerCase_def
  by (auto simp: toLowerChar_digit dest: prefixLeadingDigit_head)

lemma canon_fixed:
  assumes "\<forall>c \<in> set s. isCanonChar c" and "\<And>c cs. s = c # cs \<Longrightarrow> \<not> isDigit c"
  shows "sanitizeIdentifier s = s"
proof -
  have r: "replaceInvalid s = s"
    unfolding replaceInvalid_def using assms(1) by (simp add: map_idI canon_fix_char)
  have p: "prefixLeadingDigit s = s"
    using assms(2) by (cases s) auto
  have l: "toLowerCase s = s"
    unfolding toLowerCase_def using assms(1) by (simp add: map_idI canon_fix_char)
  show ?thesis unfolding sanitizeIdentifier_def by (simp add: r p l)
qed

lemma sanitize_leading_digit:
  assumes "isDigit c"
  shows "sanitizeIdentifier (c # cs) = CHR ''_'' # c # toLowerCase (replaceInvalid cs)"
proof -
  have w: "isWordChar c"
    using assms by (simp add: isWordChar_def)
  have l: "toLowerChar c = c"
    using assms digit_not_cased not_cased_fixed by blast
  have u: "toLowerChar CHR ''_'' = CHR ''_''"
    using underscore_facts(5) by (rule not_cased_fixed)
  show ?thesis
    unfolding sanitizeIdentifier_def toLowerCase_def replaceInvalid_def
    using assms w by (simp add: l u)
qed

text \<open>
  Claim C6. \<open>sanitizeIdentifier\<close> is idempotent: applying it to its own result changes
  nothing. A name that starts with a digit gets an underscore in front of that digit, and
  no upper-case letter is left in the result.
\<close>

theorem sanitizeIdentifier_idempotent:
  "sanitizeIdentifier (sanitizeIdentifier s) = sanitizeIdentifier s
   \<and> (\<forall>c cs. s = c # cs \<and> isDigit c \<longrightarrow>
         sanitizeIdentifier s = CHR ''_'' # c # toLowerCase (replaceInvalid cs))
   \<and> (\<forall>c \<in> set (sanitizeIdentifier s). \<not> isUpper c)"
proof (intro conjI)
  show "sanitizeIdentifier (sanitizeIdentifier s) = sanitizeIdentifier s"
    by (rule canon_fixed) (auto simp: sanitize_canon dest: sanitize_head)
  show "\<forall>c cs. s = c # cs \<and> isDigit c \<longrightarrow>
         sanitizeIdentifier s = CHR ''_'' # c # toLowerCase (replaceInvalid cs)"
    by (auto simp: sanitize_leading_digit)
  show "\<forall>c \<in> set (sanitizeIdentifier s). \<not> isUpper c"
    using sanitize_canon [of s] by (auto dest: canon_not_upper)
qed

theorem sanitizeIdentifier_idempotent_witness:
  "sanitizeIdentifier (sanitizeIdentifier ''123Table'') = ''_123table''
   \<and> isDigit CHR ''1''
   \<and> sanitizeIdentifier ''123Table'' = CHR ''_'' # CHR ''1'' # toLowerCase (replaceInvalid ''23Table'')
   \<and> CHR ''t'' \<in> set (sanitizeIdentifier ''123Table'')
   \<and> \<not> isUpper CHR ''t''"
proof -
  have e: "sanitizeIdentifier ''123Table'' = ''_123table''"
    by code_simp
  have d: "isDigit CHR ''1''"
    by (simp add: isDigit_def)
  have m: "CHR ''t'' \<in> set (sanitizeIdentifier ''123Table'')"
    unfolding e by simp
  from sanitizeIdentifier_idempotent [of "''123Table''"]
  have "sanitizeIdentifier (sanitizeIdentifier ''123Table'') = sanitizeIdentifier ''123Table''"
    and "sanitizeIdentifier ''123Table''
           = CHR ''_'' # CHR ''1'' # toLowerCase (replaceInvalid ''23Table'')"
    and "\<forall>c \<in> set (sanitizeIdentifier ''123Table''). \<not> isUpper c"
    using d by blast+
  then show ?thesis
    using d m e by metis
qed

section \<open>Type inference\<close>

text \<open>
  Claim C8, as stated, fails on a binary payload: a BSON Binary (or a Buffer) is an object
  that is neither a Date nor an array, so it takes the \<open>typeof value === 'object'\<close> branch
  and is tagged \<open>object\<close>. No branch of \<open>inferTypeFromValue\<close> returns \<open>binary\<close>.
\<close>

theorem inferTypeFromValue_binary_counterexample:
  "isBinaryPayload (JObject BinaryObject (ToStringReturns ''3q2+7w=='') [])
   \<and> inferTypeFromValue (JObject BinaryObject (ToStringReturns ''3q2+7w=='') []) = Inr TObject
   \<and> inferTypeFromValue (JObject BinaryObject (ToStringReturns ''3q2+7w=='') []) \<noteq> Inr TBinary"
  by (simp add: isObjectIdString_def)

text \<open>
  Claim C8, amended. On every value whose \<open>toString\<close>, when it has one, can be called,
  \<open>inferTypeFromValue\<close> returns one tag and no error, and that tag is never \<open>binary\<close>. The
  tag of a binary payload is fixed by its \<open>toString()\<close>: it is \<open>objectId\<close> when the string
  returned is 24 hex digits and \<open>object\<close> when it is any other string, and it is \<open>object\<close> for
  a payload without a \<open>toString\<close>.
\<close>

theorem inferTypeFromValue_total_never_binary:
  "toStringCallable v \<Longrightarrow>
     \<exists>t. inferTypeFromValue v = Inr t \<and> t \<noteq> TBinary
       \<and> (\<forall>str entries. v = JObject BinaryObject (ToStringReturns str) entries
             \<longrightarrow> t = (if isObjectIdString str then TObjectId else TObject))
       \<and> (\<forall>entries. v = JObject BinaryObject NoToString entries \<longrightarrow> t = TObject)"
  by (cases v rule: inferTypeFromValue.cases) auto

theorem inferTypeFromValue_total_never_binary_witness:
  "toStringCallable (JObject BinaryObject (ToStringReturns ''0123456789abcdefABCDEF00'') [])
   \<and> isBinaryPayload (JObject BinaryObject (ToStringReturns ''0123456789abcdefABCDEF00'') [])
   \<and> isObjectIdString ''0123456789abcdefABCDEF00''
   \<and> inferTypeFromValue (JObject BinaryObject (ToStringReturns ''0123456789abcdefABCDEF00'') [])
       = Inr TObjectId
   \<and> toStringCallable (JObject BinaryObject (ToStringReturns ''3q2+7w=='') [])
   \<and> isBinaryPayload (JObject BinaryObject (ToStringReturns ''3q2+7w=='') [])
   \<and> inferTypeFromValue (JObject BinaryObject (ToStringReturns ''3q2+7w=='') []) = Inr TObject
   \<and> toStringCallable (JObject BinaryObject NoToString [])
   \<and> inferTypeFromValue (JObject BinaryObject NoToString []) = Inr TObject"
proof -
  have hex: "isObjectIdString ''0123456789abcdefABCDEF00''"
    by code_simp
  have other: "\<not> isObjectIdString ''3q2+7w==''"
    by (simp add: isObjectIdString_def)
  have c1: "toStringCallable
      (JObject BinaryObject (ToStringReturns ''0123456789abcdefABCDEF00'') [])"
    by simp
  have c2: "toStringCallable (JObject BinaryObject (ToStringReturns ''3q2+7w=='') [])"
    by simp
  have c3: "toStringCallable (JObject BinaryObject NoToString [])"
    by simp
  have b1: "isBinaryPayload
      (JObject BinaryObject (ToStringReturns ''0123456789abcdefABCDEF00'') [])"
    by simp
  have b2: "isBinaryPayload (JObject BinaryObject (ToStringReturns ''3q2+7w=='') [])"
    by simp
  have r1: "inferTypeFromValue
      (JObject BinaryObject (ToStringReturns ''0123456789abcdefABCDEF00'') []) = Inr TObjectId"
  proof -
    from inferTypeFromValue_total_never_binary [OF c1] obtain t where
      a: "inferTypeFromValue
            (JObject BinaryObject (ToStringReturns ''0123456789abcdefABCDEF00'') []) = Inr t"
      and b: "\<forall>str entries.
            JObject BinaryObject (ToStringReturns ''0123456789abcdefABCDEF00'') []
              = JObject BinaryObject (ToStringReturns str) entries
            \<longrightarrow> t = (if isObjectIdString str then TObjectId else TObject)"
      by blast
    from b have "t = (if isObjectIdString ''0123456789abcdefABCDEF00''
        then TObjectId else TObject)"
      by blast
    with hex have "t = TObjectId"
      by (simp only: if_True)
    with a show ?thesis
      by (simp only:)
  qed
  have r2: "inferTypeFromValue (JObject BinaryObject (ToStringReturns ''3q2+7w=='') [])
      = Inr TObject"
  proof -
    from inferTypeFromValue_total_never_binary [OF c2] obtain t where
      a: "inferTypeFromValue (JObject BinaryObject (ToStringReturns ''3q2+7w=='') []) = Inr t"
      and b: "\<forall>str entries.
            JObject BinaryObject (ToStringReturns ''3q2+7w=='') []
              = JObject BinaryObject (ToStringReturns str) entries
            \<longrightarrow> t = (if isObjectIdString str then TObjectId else TObject)"
      by blast
    from b have "t = (if isObjectIdString ''3q2+7w=='' then TObjectId else TObject)"
      by blast
    with other have "t = TObject"
      by (simp only: if_False)
    with a show ?thesis
      by (simp only:)
  qed
  have r3: "inferTypeFromValue (JObject BinaryObject NoToString []) = Inr TObject"
  proof -
    from inferTypeFromValue_total_never_binary [OF c3] obtain t where
      a: "inferTypeFromValue (JObject BinaryObject NoToString []) = Inr t"
      and b: "\<forall>entries. JObject BinaryObject NoToString [] = JObject BinaryObject NoToString entries
            \<longrightarrow> t = TObject"
      by blast
    from b have "t = TObject"
      by blast
    with a show ?thesis
      by (simp only:)
  qed
  from hex c1 c2 c3 b1 b2 r1 r2 r3 show ?thesis
    by (intro conjI)
qed

section \<open>The fallback column mapping\<close>

lemma mapFields_append: "mapFields cols fs (a @ b) = a @ mapFields cols fs b"
  by (induction fs arbitrary: b) (auto simp: Let_def split: option.splits)

lemma find_None_ex: "(find P xs = None) = (\<not> list_ex P xs)"
  by (auto simp: find_None_iff list_ex_iff)

lemma find_Some_ex: "find P xs = Some x \<Longrightarrow> list_ex P xs"
  using find_None_ex [of P xs] by simp

lemma mapFields_singleton: "mapFields cols fs [m] \<noteq> []"
  using mapFields_append [of cols fs "[m]" "[]"] by simp

lemma mapFields_empty_iff:
  "(mapFields cols fs [] = []) = (\<not> list_ex (fieldMatches cols) fs)"
proof (induction fs)
  case Nil
  then show ?case by simp
next
  case (Cons f fs)
  show ?case
    using Cons
    by (auto simp: Let_def fieldMatches_def mapFields_singleton find_None_ex
             dest: find_Some_ex split: option.splits)
qed

text \<open>
  Claim C4, as stated, fails: a field \<open>age\<close> and a column \<open>title\<close> (not unique, no primary
  key) are both non-empty inputs, and no mapping is produced.
\<close>

theorem createBasicColumnMappings_nonempty_counterexample:
  "schemaFields ageOnlySchema \<noteq> [] \<and> columns titleOnlyTable \<noteq> []
   \<and> createBasicColumnMappings ageOnlySchema titleOnlyTable = []"
  by code_simp

text \<open>
  Claim C4, amended. \<open>createBasicColumnMappings\<close> returns the empty list when both inputs
  are empty. With a non-empty input the result can still be empty: it is non-empty exactly
  when the table has an identifier column (a name containing \<open>id\<close>, unique or primary key)
  or some field other than \<open>_id\<close> matches a column, by its canonical name or by a partial
  match in either direction.
\<close>

theorem createBasicColumnMappings_nonempty_iff:
  "(createBasicColumnMappings mongoSchema pgSchema \<noteq> []) =
     (list_ex isIdColumn (columns pgSchema)
      \<or> list_ex (fieldMatches (columns pgSchema)) (schemaFields mongoSchema))
   \<and> (schemaFields mongoSchema = [] \<and> columns pgSchema = []
        \<longrightarrow> createBasicColumnMappings mongoSchema pgSchema = [])"
proof -
  have iff: "(createBasicColumnMappings mongoSchema pgSchema \<noteq> []) =
     (list_ex isIdColumn (columns pgSchema)
      \<or> list_ex (fieldMatches (columns pgSchema)) (schemaFields mongoSchema))"
  proof (cases "find isIdColumn (columns pgSchema)")
    case None
    then have "\<not> list_ex isIdColumn (columns pgSchema)"
      by (simp add: find_None_ex)
    then show ?thesis
      unfolding createBasicColumnMappings_def using None
      by (simp add: mapFields_empty_iff)
  next
    case (Some c)
    then have "list_ex isIdColumn (columns pgSchema)"
      by (rule find_Some_ex)
    then show ?thesis
      unfolding createBasicColumnMappings_def using Some by (simp add: mapFields_singleton)
  qed
  moreover have "createBasicColumnMappings mongoSchema pgSchema = []"
    if "schemaFields mongoSchema = [] \<and> columns pgSchema = []"
    using that unfolding createBasicColumnMappings_def by simp
  ultimately show ?thesis by blast
qed

theorem createBasicColumnMappings_nonempty_iff_witness:
  "schemaFields emptySchema = [] \<and> columns emptyTable = []
   \<and> createBasicColumnMappings emptySchema emptyTable = []
   \<and> list_ex isIdColumn (columns profileTable)
   \<and> createBasicColumnMappings profileSchema profileTable \<noteq> []
   \<and> list_ex (fieldMatches (columns accentTable)) (schemaFields accentSchema)
   \<and> createBasicColumnMappings accentSchema accentTable \<noteq> []
   \<and> createBasicColumnMappings accentSchema accentTable =
       [\<lparr>mongoField = CHR 0xC9 # ''cole'', postgresColumn = CHR 0xE9 # ''cole'',
         transformation = None\<rparr>]"
proof -
  have e: "schemaFields emptySchema = [] \<and> columns emptyTable = []"
    by (simp add: emptySchema_def emptyTable_def)
  have i: "list_ex isIdColumn (columns profileTable)"
    by code_simp
  have a: "list_ex (fieldMatches (columns accentTable)) (schemaFields accentSchema)"
    by code_simp
  have v: "createBasicColumnMappings accentSchema accentTable =
       [\<lparr>mongoField = CHR 0xC9 # ''cole'', postgresColumn = CHR 0xE9 # ''cole'',
         transformation = None\<rparr>]"
    by code_simp
  from createBasicColumnMappings_nonempty_iff [of emptySchema emptyTable] e
  have "createBasicColumnMappings emptySchema emptyTable = []"
    by blast
  moreover from createBasicColumnMappings_nonempty_iff [of profileSchema profileTable] i
  have "createBasicColumnMappings profileSchema profileTable \<noteq> []"
    by blast
  moreover from createBasicColumnMappings_nonempty_iff [of accentSchema accentTable] a
  have "createBasicColumnMappings accentSchema accentTable \<noteq> []"
    by blast
  ultimately show ?thesis
    using e i a v by blast
qed

section \<open>The insertion order: a permutation\<close>

lemma Map_has_get: "Map_has m k = (Map_get m k \<noteq> None)"
  by (simp add: Map_has_def Map_get_def map_of_eq_None_iff)

lemma Map_set_keys:
  "map fst (Map_set m k v) = (if Map_has m k then map fst m else map fst m @ [k])"
  by (induction m) (force simp: Map_has_def)+

lemma Map_set_new: "\<not> Map_has m k \<Longrightarrow> Map_set m k v = m @ [(k, v)]"
  by (induction m) (auto simp: Map_has_def)

lemma initGraph_distinct:
  "distinct tables \<Longrightarrow> set tables \<inter> set (map fst graph) = {} \<Longrightarrow>
   set tables \<inter> set (map fst inDegree) = {} \<Longrightarrow>
   initGraph tables (graph, inDegree)
     = (graph @ map (\<lambda>t. (t, [])) tables, inDegree @ map (\<lambda>t. (t, Num 0)) tables)"
proof (induction tables arbitrary: graph inDegree)
  case Nil
  then show ?case by simp
next
  case (Cons t tables)
  have g: "Map_set graph t [] = graph @ [(t, [])]"
    using Cons.prems by (intro Map_set_new) (auto simp: Map_has_def)
  have d: "Map_set inDegree t (Num 0) = inDegree @ [(t, Num 0)]"
    using Cons.prems by (intro Map_set_new) (auto simp: Map_has_def)
  show ?case
    using Cons.prems by (simp add: g d Cons.IH)
qed

lemma initGraph_OK:
  assumes "distinct tables"
  shows "graphOK tables (fst (initGraph tables ([], [])))"
    and "degreeOK tables (snd (initGraph tables ([], [])))"
proof -
  have e: "initGraph tables ([], [])
     = (map (\<lambda>t. (t, [])) tables, map (\<lambda>t. (t, Num 0)) tables)"
    using initGraph_distinct [OF assms, of "[]" "[]"] by simp
  show "graphOK tables (fst (initGraph tables ([], [])))"
    unfolding e graphOK_def Map_get_def
    by (auto simp: comp_def dest!: map_of_SomeD)
  show "degreeOK tables (snd (initGraph tables ([], [])))"
    unfolding e degreeOK_def Map_get_def
    by (auto simp: comp_def map_of_map_restrict)
qed

lemma buildGraph_OK:
  "graphOK tables graph \<Longrightarrow> degreeOK tables inDegree \<Longrightarrow>
   \<exists>graph' inDegree'. buildGraph rels (graph, inDegree) = Inr (graph', inDegree')
      \<and> graphOK tables graph' \<and> degreeOK tables inDegree'"
proof (induction rels arbitrary: graph inDegree)
  case Nil
  then show ?case by simp
next
  case (Cons r rels)
  show ?case
  proof (cases "Map_has graph (relTableName r) \<and> Map_has graph (referencedTable r)")
    case False
    then show ?thesis using Cons by auto
  next
    case True
    then obtain deps where deps: "Map_get graph (referencedTable r) = Some deps"
      by (auto simp: Map_has_get)
    from True Cons.prems(1) have mem: "relTableName r \<in> set tables" "referencedTable r \<in> set tables"
      unfolding graphOK_def Map_has_def by force+
    let ?g = "Map_set graph (referencedTable r) (Set_add deps (relTableName r))"
    let ?d = "Map_set inDegree (relTableName r) (orZeroPlusOne (Map_get inDegree (relTableName r)))"
    have g: "graphOK tables ?g"
      using Cons.prems(1) True deps mem
      by (auto simp: graphOK_def Map_set_keys Map_get_Map_set Set_add_def split: if_splits)
    from Cons.prems(2) mem obtain n where n: "Map_get inDegree (relTableName r) = Some (Num n)" "0 \<le> n"
      by (auto simp: degreeOK_def)
    have d: "degreeOK tables ?d"
      using Cons.prems(2) mem n
      by (auto simp: degreeOK_def Map_set_keys Map_get_Map_set Map_has_def)
    from Cons.IH [OF g d] show ?thesis
      using True deps by simp
  qed
qed

lemma processDependents_inv:
  "set deps \<subseteq> set tables \<Longrightarrow> loopInv tables inDegree queue result \<Longrightarrow>
   loopInv tables (fst (processDependents deps (inDegree, queue)))
     (snd (processDependents deps (inDegree, queue))) result"
proof (induction deps arbitrary: inDegree queue)
  case Nil
  then show ?case by simp
next
  case (Cons d deps)
  from Cons.prems have dT: "d \<in> set tables" by simp
  with Cons.prems(2) obtain n where n: "Map_get inDegree d = Some (Num n)"
      "(d \<in> set (result @ queue)) = (n \<le> 0)"
    unfolding loopInv_def by blast
  let ?i = "Map_set inDegree d (Num (n - 1))"
  show ?case
  proof (cases "n = 1")
    case True
    have "loopInv tables ?i (queue @ [d]) result"
      using Cons.prems(2) n dT True
      unfolding loopInv_def by (auto simp: Map_get_Map_set)
    from Cons.IH [OF _ this] Cons.prems(1) show ?thesis
      using n True by (simp add: Map_get_Map_set)
  next
    case False
    have "loopInv tables ?i queue result"
      using Cons.prems(2) n dT False
      unfolding loopInv_def by (auto simp: Map_get_Map_set)
    from Cons.IH [OF _ this] Cons.prems(1) show ?thesis
      using n False by (simp add: Map_get_Map_set)
  qed
qed

lemma kahnLoop_inv:
  "graphOK tables graph \<Longrightarrow> loopInv tables inDegree queue result \<Longrightarrow>
   \<exists>res. kahnLoop graph inDegree queue result = Inr res \<and> distinct res \<and> set res \<subseteq> set tables"
proof (induction graph inDegree queue result rule: kahnLoop.induct)
  case (1 graph inDegree result)
  then show ?case by (simp add: loopInv_def)
next
  case (2 graph inDegree table queue result)
  from 2(3) have tT: "table \<in> set tables"
    by (simp add: loopInv_def)
  with 2(2) obtain deps where deps: "Map_get graph table = Some deps"
    using Map_has_get [of graph table] by (auto simp: graphOK_def Map_has_def)
  with 2(2) have sub: "set deps \<subseteq> set tables"
    by (auto simp: graphOK_def)
  from 2(3) have "loopInv tables inDegree queue (result @ [table])"
    by (simp add: loopInv_def)
  from processDependents_inv [OF sub this] 2(1) [OF deps 2(2)] show ?case
    using deps by simp
qed


lemma seedQueue_inv:
  assumes "distinct tables" and "degreeOK tables inDegree"
  shows "loopInv tables inDegree (seedQueue inDegree) []"
proof -
  from assms have keys: "map fst inDegree = tables" and dk: "distinct (map fst inDegree)"
    by (simp_all add: degreeOK_def)
  have mem: "(t \<in> set (seedQueue inDegree)) = (Map_get inDegree t = Some (Num 0))" for t
    using dk by (force simp: seedQueue_def Map_get_def)
  have "distinct (seedQueue inDegree)"
    unfolding seedQueue_def using dk by (rule distinct_map_filter)
  moreover have "set (seedQueue inDegree) \<subseteq> set tables"
  proof
    fix t assume "t \<in> set (seedQueue inDegree)"
    then obtain e where "e \<in> set inDegree" "t = fst e"
      unfolding seedQueue_def by auto
    then have "t \<in> set (map fst inDegree)" by simp
    then show "t \<in> set tables" by (simp only: keys)
  qed
  moreover have "\<exists>n. Map_get inDegree t = Some (Num n) \<and> ((t \<in> set (seedQueue inDegree)) = (n \<le> 0))"
    if "t \<in> set tables" for t
  proof -
    from that assms(2) obtain n where "Map_get inDegree t = Some (Num n)" "0 \<le> n"
      by (auto simp: degreeOK_def)
    then show ?thesis by (auto simp: mem)
  qed
  ultimately show ?thesis
    unfolding loopInv_def by simp
qed

lemma mset_filter_split:
  "mset xs = mset (filter P xs) + mset (filter (\<lambda>x. \<not> P x) xs)"
  by (induction xs) simp_all

lemma completed_permutation:
  assumes "distinct tables" and "distinct res" and "set res \<subseteq> set tables"
  shows "mset (if length res \<noteq> length tables
               then res @ filter (\<lambda>table. table \<notin> set res) tables else res) = mset tables"
proof (cases "length res = length tables")
  case True
  have "card (set res) = card (set tables)"
    using True assms(1,2) by (simp add: distinct_card)
  with assms(3) have "set res = set tables"
    by (simp add: card_subset_eq)
  then have "mset res = mset tables"
    by (rule iffD1 [OF set_eq_iff_mset_eq_distinct [OF assms(2) assms(1)]])
  then show ?thesis
    using True by simp
next
  case False
  have fs: "set (filter (\<lambda>table. table \<in> set res) tables) = set res"
    using assms(3) by auto
  have fd: "distinct (filter (\<lambda>table. table \<in> set res) tables)"
    using assms(1) by simp
  have a: "mset (filter (\<lambda>table. table \<in> set res) tables) = mset res"
    by (rule iffD1 [OF set_eq_iff_mset_eq_distinct [OF fd assms(2)] fs])
  have b: "mset tables = mset (filter (\<lambda>table. table \<in> set res) tables)
                   + mset (filter (\<lambda>table. table \<notin> set res) tables)"
    by (rule mset_filter_split)
  have "mset (res @ filter (\<lambda>table. table \<notin> set res) tables) = mset tables"
    unfolding mset_append by (subst b, subst a, rule refl)
  then show ?thesis
    by (simp only: False if_True not_False_eq_True)
qed

text \<open>
  Claim C1. For distinct table names and any relationships (cyclic, or naming tables outside
  the list), \<open>getInsertionOrder\<close> raises no exception and returns a permutation of the
  table names: the same multiset, hence the same length and the same set.
\<close>

theorem getInsertionOrder_permutation:
  assumes "distinct tables"
  shows "\<exists>order. getInsertionOrder tables relationships = Inr order
           \<and> mset order = mset tables \<and> length order = length tables
           \<and> set order = set tables"
proof -
  obtain graph inDegree where
    b: "buildGraph relationships (initGraph tables ([], [])) = Inr (graph, inDegree)"
    and g: "graphOK tables graph" and d: "degreeOK tables inDegree"
    using buildGraph_OK [OF initGraph_OK [OF assms], of relationships]
    by (metis prod.collapse)
  obtain res where
    k: "kahnLoop graph inDegree (seedQueue inDegree) [] = Inr res"
    and r: "distinct res" "set res \<subseteq> set tables"
    using kahnLoop_inv [OF g seedQueue_inv [OF assms d]] by blast
  let ?order = "if length res \<noteq> length tables
                then res @ filter (\<lambda>table. table \<notin> set res) tables else res"
  have e: "getInsertionOrder tables relationships = Inr ?order"
    unfolding getInsertionOrder_def by (simp add: b k)
  have m: "mset ?order = mset tables"
    using assms r by (rule completed_permutation)
  from m have "length ?order = length tables" "set ?order = set tables"
    by (metis size_mset, metis set_mset_mset)
  with e m show ?thesis
    by blast
qed

theorem getInsertionOrder_permutation_witness:
  "distinct [''table_a'', ''table_b'']
   \<and> (\<exists>order. getInsertionOrder [''table_a'', ''table_b'']
         [rel ''table_a'' ''b_id'' ''table_b'' ''id'', rel ''table_b'' ''a_id'' ''table_a'' ''id'',
          rel ''table_a'' ''c_id'' ''elsewhere'' ''id''] = Inr order
        \<and> mset order = mset [''table_a'', ''table_b''])"
proof -
  have d: "distinct [''table_a'', ''table_b'']"
    by simp
  from getInsertionOrder_permutation [OF d] d show ?thesis
    by blast
qed

text \<open>
  Claim C2 at an input on which the code misses it. \<open>messages\<close> references \<open>users\<close> through
  two columns and \<open>audit\<close> references \<open>messages\<close>; the graph has no cycle. The in-degree of
  \<open>messages\<close> counts both relationships, the \<open>Set\<close> of dependents of \<open>users\<close> holds it
  once, so its count stops at one, it is never queued, and the tables left over are
  appended in input order: \<open>audit\<close> comes out before the \<open>messages\<close> it references.
\<close>

theorem getInsertionOrder_duplicate_edge:
  "getInsertionOrder [''audit'', ''messages'', ''users'']
     [rel ''messages'' ''sender_id'' ''users'' ''id'',
      rel ''messages'' ''receiver_id'' ''users'' ''id'',
      rel ''audit'' ''message_id'' ''messages'' ''id'']
   = Inr [''users'', ''audit'', ''messages'']"
  by code_simp

text \<open>
  Claim C3, as stated, fails. \<open>x\<close> and \<open>y\<close> both reference \<open>p\<close> only, so both are ready as
  soon as \<open>p\<close> is out; \<open>x\<close> stands before \<open>y\<close> in the input, and \<open>y\<close> is emitted first,
  because its relationship comes first and it enters the queue first.
\<close>

theorem getInsertionOrder_ties_counterexample:
  "getInsertionOrder [''p'', ''x'', ''y'']
     [rel ''y'' ''p_id'' ''p'' ''id'', rel ''x'' ''p_id'' ''p'' ''id'']
   = Inr [''p'', ''y'', ''x'']
   \<and> readyTables [''p'', ''x'', ''y'']
        [rel ''y'' ''p_id'' ''p'' ''id'', rel ''x'' ''p_id'' ''p'' ''id''] [''p''] = [''x'', ''y'']
   \<and> \<not> tiesByInputOrder [''p'', ''x'', ''y'']
        [rel ''y'' ''p_id'' ''p'' ''id'', rel ''x'' ''p_id'' ''p'' ''id''] [''p'', ''y'', ''x'']"
  by code_simp

lemma processDependents_prefix: "prefix queue (snd (processDependents deps (inDegree, queue)))"
proof (induction deps arbitrary: inDegree queue)
  case Nil
  then show ?case by simp
next
  case (Cons d deps)
  let ?i = "Map_set inDegree d (minusOne (Map_get inDegree d))"
  have a: "prefix queue (queue @ [d])" by simp
  have "prefix queue (snd (processDependents deps (?i, queue @ [d])))"
    using a Cons [of "queue @ [d]" ?i] by (rule prefix_order.trans)
  with Cons [of queue ?i] show ?case
    by (simp add: Let_def)
qed

lemma kahnLoop_prefix:
  "kahnLoop graph inDegree queue result = Inr order \<Longrightarrow> prefix (result @ queue) order"
proof (induction graph inDegree queue result rule: kahnLoop.induct)
  case (1 graph inDegree result)
  then show ?case by simp
next
  case (2 graph inDegree table queue result)
  from 2(2) obtain deps where deps: "Map_get graph table = Some deps"
    by (auto split: option.splits)
  let ?q = "snd (processDependents deps (inDegree, queue))"
  from 2(1) [OF deps] 2(2) deps have "prefix ((result @ [table]) @ ?q) order"
    by simp
  moreover have "prefix (result @ table # queue) ((result @ [table]) @ ?q)"
    using processDependents_prefix [of queue deps inDegree] by simp
  ultimately show ?case
    by (rule prefix_order.trans [rotated])
qed

lemma seed_filter:
  "distinct (map fst m) \<Longrightarrow>
   map fst (filter (\<lambda>entry. snd entry = v) m) = filter (\<lambda>k. map_of m k = Some v) (map fst m)"
proof (induction m)
  case Nil
  then show ?case by simp
next
  case (Cons e m)
  obtain k w where e: "e = (k, w)" by (cases e)
  from Cons.prems e have "filter (\<lambda>k'. map_of (e # m) k' = Some v) (map fst m)
       = filter (\<lambda>k'. map_of m k' = Some v) (map fst m)"
    by (intro filter_cong) auto
  with Cons e show ?case by auto
qed

lemma buildGraph_zero:
  "graphOK tables graph \<Longrightarrow> degreeOK tables inDegree \<Longrightarrow>
   buildGraph rels (graph, inDegree) = Inr (graph', inDegree') \<Longrightarrow> t \<in> set tables \<Longrightarrow>
   (Map_get inDegree' t = Some (Num 0))
     = (Map_get inDegree t = Some (Num 0) \<and> \<not> hasDependency tables rels t)"
proof (induction rels arbitrary: graph inDegree)
  case Nil
  then show ?case by (simp add: hasDependency_def)
next
  case (Cons r rels)
  have keys: "set (map fst graph) = set tables"
    using Cons.prems(1) by (simp add: graphOK_def)
  have has: "Map_has graph k = (k \<in> set tables)" for k
    unfolding Map_has_def keys ..
  show ?case
  proof (cases "relTableName r \<in> set tables \<and> referencedTable r \<in> set tables")
    case False
    with Cons.prems(3) have b: "buildGraph rels (graph, inDegree) = Inr (graph', inDegree')"
      by (simp add: has)
    from False Cons.prems(4) have "hasDependency tables (r # rels) t = hasDependency tables rels t"
      by (auto simp: hasDependency_def)
    with Cons.IH [OF Cons.prems(1,2) b Cons.prems(4)] show ?thesis
      by simp
  next
    case True
    then obtain deps where deps: "Map_get graph (referencedTable r) = Some deps"
      using has [of "referencedTable r"] by (auto simp: Map_has_get)
    let ?g = "Map_set graph (referencedTable r) (Set_add deps (relTableName r))"
    let ?d = "Map_set inDegree (relTableName r) (orZeroPlusOne (Map_get inDegree (relTableName r)))"
    have g: "graphOK tables ?g"
      using Cons.prems(1) True deps has
      by (auto simp: graphOK_def Map_set_keys Map_get_Map_set Set_add_def split: if_splits)
    from Cons.prems(2) True obtain n where n: "Map_get inDegree (relTableName r) = Some (Num n)" "0 \<le> n"
      by (auto simp: degreeOK_def)
    have d: "degreeOK tables ?d"
      using Cons.prems(2) True n
      by (auto simp: degreeOK_def Map_set_keys Map_get_Map_set Map_has_def)
    from Cons.prems(3) True deps have b: "buildGraph rels (?g, ?d) = Inr (graph', inDegree')"
      by (simp add: has)
    have "(Map_get ?d t = Some (Num 0))
            = (Map_get inDegree t = Some (Num 0) \<and> relTableName r \<noteq> t)"
      using n by (auto simp: Map_get_Map_set)
    moreover have "hasDependency tables (r # rels) t
            = (relTableName r = t \<or> hasDependency tables rels t)"
      using True by (auto simp: hasDependency_def)
    ultimately show ?thesis
      using Cons.IH [OF g d b Cons.prems(4)] by auto
  qed
qed


lemma initGraph_zero:
  assumes "distinct tables" and "t \<in> set tables"
  shows "Map_get (snd (initGraph tables ([], []))) t = Some (Num 0)"
proof -
  have e: "initGraph tables ([], [])
     = (map (\<lambda>t. (t, [])) tables, map (\<lambda>t. (t, Num 0)) tables)"
    using initGraph_distinct [OF assms(1), of "[]" "[]"] by simp
  show ?thesis
    unfolding e Map_get_def using assms(2) by (simp add: comp_def map_of_map_restrict)
qed

lemma seedQueue_independent:
  assumes "distinct tables"
    and "buildGraph rels (initGraph tables ([], [])) = Inr (graph, inDegree)"
  shows "seedQueue inDegree = filter (\<lambda>t. \<not> hasDependency tables rels t) tables"
proof -
  obtain g0 d0 where i: "initGraph tables ([], []) = (g0, d0)"
    by (cases "initGraph tables ([], [])")
  from initGraph_OK [OF assms(1)] i have ok: "graphOK tables g0" "degreeOK tables d0"
    by simp_all
  from buildGraph_OK [OF ok, of rels] assms(2) i have d: "degreeOK tables inDegree"
    by simp
  then have keys: "map fst inDegree = tables"
    by (simp add: degreeOK_def)
  have z: "(map_of inDegree t = Some (Num 0)) = (\<not> hasDependency tables rels t)"
    if "t \<in> set tables" for t
    using buildGraph_zero [OF ok _ that, of rels graph inDegree] assms(2) i
      initGraph_zero [OF assms(1) that]
    by (simp add: Map_get_def)
  have "seedQueue inDegree = filter (\<lambda>k. map_of inDegree k = Some (Num 0)) (map fst inDegree)"
    unfolding seedQueue_def using assms(1) keys by (intro seed_filter) simp
  also have "\<dots> = filter (\<lambda>t. \<not> hasDependency tables rels t) tables"
    unfolding keys by (rule filter_cong) (simp_all add: z)
  finally show ?thesis .
qed

lemma foldl_Set_add_set: "set (foldl Set_add s xs) = set s \<union> set xs"
  by (induction xs arbitrary: s) (auto simp: Set_add_def)

lemma foldl_Set_add_first: "foldl Set_add [] xs = firstOccurrences xs"
proof (induction xs rule: rev_induct)
  case Nil
  then show ?case by (simp add: firstOccurrences_def)
next
  case (snoc x xs)
  have "set (foldl Set_add [] xs) = set xs"
    by (simp add: foldl_Set_add_set)
  with snoc show ?case
    by (simp add: firstOccurrences_def Set_add_def)
qed

lemma foldl_Set_add_skip: "x \<in> set s \<Longrightarrow> foldl Set_add s (x # xs) = foldl Set_add s xs"
  by (simp add: Set_add_def)

lemma buildGraph_dependents:
  "set (map fst graph) = set tables \<Longrightarrow>
   buildGraph rels (graph, inDegree) = Inr (graph', inDegree') \<Longrightarrow>
   Map_get graph t = Some deps \<Longrightarrow>
   Map_get graph' t = Some (foldl Set_add deps
      (map relTableName
         (filter (\<lambda>r. referencedTable r = t \<and> relTableName r \<in> set tables) rels)))"
proof (induction rels arbitrary: graph inDegree deps)
  case Nil
  then show ?case by simp
next
  case (Cons r rels)
  have has: "Map_has graph k = (k \<in> set tables)" for k
    unfolding Map_has_def Cons.prems(1) ..
  from Cons.prems(3) have tT: "t \<in> set tables"
    using has [of t] by (simp add: Map_has_get)
  show ?case
  proof (cases "relTableName r \<in> set tables \<and> referencedTable r \<in> set tables")
    case False
    with Cons.prems(2) have b: "buildGraph rels (graph, inDegree) = Inr (graph', inDegree')"
      by (simp add: has)
    from False tT have "filter (\<lambda>r. referencedTable r = t \<and> relTableName r \<in> set tables) (r # rels)
        = filter (\<lambda>r. referencedTable r = t \<and> relTableName r \<in> set tables) rels"
      by auto
    with Cons.IH [OF Cons.prems(1) b Cons.prems(3)] show ?thesis
      by (simp only:)
  next
    case True
    then obtain ds where ds: "Map_get graph (referencedTable r) = Some ds"
      using has [of "referencedTable r"] by (auto simp: Map_has_get)
    let ?g = "Map_set graph (referencedTable r) (Set_add ds (relTableName r))"
    let ?d = "Map_set inDegree (relTableName r) (orZeroPlusOne (Map_get inDegree (relTableName r)))"
    have keys: "set (map fst ?g) = set tables"
      using Cons.prems(1) True has by (simp add: Map_set_keys)
    from Cons.prems(2) True ds have b: "buildGraph rels (?g, ?d) = Inr (graph', inDegree')"
      by (simp add: has)
    show ?thesis
    proof (cases "referencedTable r = t")
      case same: True
      with ds Cons.prems(3) have "ds = deps" by simp
      with same have "Map_get ?g t = Some (Set_add deps (relTableName r))"
        by (simp add: Map_get_Map_set)
      from Cons.IH [OF keys b this] same True show ?thesis
        by simp
    next
      case other: False
      with Cons.prems(3) have "Map_get ?g t = Some deps"
        by (simp add: Map_get_Map_set)
      from Cons.IH [OF keys b this] other show ?thesis
        by simp
    qed
  qed
qed

lemma processDependents_queue:
  "distinct deps \<Longrightarrow>
   snd (processDependents deps (inDegree, queue))
     = queue @ filter (\<lambda>d. Map_get inDegree d = Some (Num 1)) deps"
proof (induction deps arbitrary: inDegree queue)
  case Nil
  then show ?case by simp
next
  case (Cons d deps)
  let ?i = "Map_set inDegree d (minusOne (Map_get inDegree d))"
  from Cons.prems have nd: "d \<notin> set deps" and dd: "distinct deps"
    by simp_all
  have zero: "(Map_get ?i d = Some (Num 0)) = (Map_get inDegree d = Some (Num 1))"
  proof (cases "Map_get inDegree d")
    case None
    then show ?thesis by (simp add: Map_get_Map_set)
  next
    case (Some v)
    then show ?thesis by (cases v) (auto simp: Map_get_Map_set)
  qed
  have same: "filter (\<lambda>x. Map_get ?i x = Some (Num 1)) deps
      = filter (\<lambda>x. Map_get inDegree x = Some (Num 1)) deps"
    using nd by (intro filter_cong) (auto simp: Map_get_Map_set)
  show ?case
  proof (cases "Map_get inDegree d = Some (Num 1)")
    case True
    with zero have z: "Map_get ?i d = Some (Num 0)" by simp
    from Cons.IH [OF dd, of ?i "queue @ [d]"] z True same show ?thesis
      by (simp add: Let_def)
  next
    case False
    with zero have z: "Map_get ?i d \<noteq> Some (Num 0)" by simp
    from Cons.IH [OF dd, of ?i queue] z False same show ?thesis
      by (simp add: Let_def)
  qed
qed

lemma dependentsOf_distinct: "distinct (dependentsOf tables rels t)"
  by (simp add: dependentsOf_def firstOccurrences_def)

lemma kahnLoop_enqueue:
  assumes "Map_get graph table = Some deps" and "distinct deps"
    and "kahnLoop graph counts (table # queue) result = Inr order"
  shows "prefix (result @ table # queue
                  @ filter (\<lambda>d. Map_get counts d = Some (Num 1)) deps) order"
proof -
  from assms(1,3) have "kahnLoop graph (fst (processDependents deps (counts, queue)))
      (snd (processDependents deps (counts, queue))) (result @ [table]) = Inr order"
    by simp
  from kahnLoop_prefix [OF this] show ?thesis
    unfolding processDependents_queue [OF assms(2)] by simp
qed

text \<open>
  Claim C3, amended, for distinct table names. The tables without a dependency inside the
  table list are emitted first, in input order. The queue is served first in, first out:
  when a table is taken from the queue, the output goes on with that table, then with the
  tables that were already waiting in the queue, in queue order, and only then with the
  dependents of the table whose count of unmet dependencies has just dropped from one to
  zero. Those dependents stand in the order in which the relationships first name them as
  dependents of the table, whatever their positions in the input.
\<close>

theorem getInsertionOrder_fifo:
  assumes "distinct tables"
  shows "\<exists>graph inDegree processed.
      buildGraph rels (initGraph tables ([], [])) = Inr (graph, inDegree)
    \<and> kahnLoop graph inDegree (filter (\<lambda>t. \<not> hasDependency tables rels t) tables) []
        = Inr processed
    \<and> getInsertionOrder tables rels
        = Inr (processed @ filter (\<lambda>t. t \<notin> set processed) tables)
    \<and> prefix (filter (\<lambda>t. \<not> hasDependency tables rels t) tables) processed
    \<and> (\<forall>table \<in> set tables. \<forall>counts queue result order.
          kahnLoop graph counts (table # queue) result = Inr order \<longrightarrow>
          prefix (result @ table # queue
                   @ filter (\<lambda>d. Map_get counts d = Some (Num 1))
                       (dependentsOf tables rels table)) order)"
proof -
  obtain g0 d0 where i: "initGraph tables ([], []) = (g0, d0)"
    by (cases "initGraph tables ([], [])")
  from initGraph_OK [OF assms] i have ok: "graphOK tables g0" "degreeOK tables d0"
    by simp_all
  from buildGraph_OK [OF ok, of rels] obtain graph inDegree where
    b: "buildGraph rels (g0, d0) = Inr (graph, inDegree)"
    and g: "graphOK tables graph" and d: "degreeOK tables inDegree"
    by blast
  from b i have b': "buildGraph rels (initGraph tables ([], [])) = Inr (graph, inDegree)"
    by simp
  have seed: "seedQueue inDegree = filter (\<lambda>t. \<not> hasDependency tables rels t) tables"
    by (rule seedQueue_independent [OF assms b'])
  from kahnLoop_inv [OF g seedQueue_inv [OF assms d]] obtain processed where
    k: "kahnLoop graph inDegree (seedQueue inDegree) [] = Inr processed"
    and dp: "distinct processed" and sp: "set processed \<subseteq> set tables"
    by blast
  have rest: "filter (\<lambda>t. t \<notin> set processed) tables = []"
    if "length processed = length tables"
  proof -
    from that assms dp have "card (set processed) = card (set tables)"
      by (simp add: distinct_card)
    with sp have "set processed = set tables"
      by (simp add: card_subset_eq)
    then show ?thesis
      by simp
  qed
  have o: "getInsertionOrder tables rels
      = Inr (processed @ filter (\<lambda>t. t \<notin> set processed) tables)"
    unfolding getInsertionOrder_def b' using k rest by simp
  from kahnLoop_prefix [OF k] have p: "prefix (seedQueue inDegree) processed"
    by simp
  have e0: "g0 = map (\<lambda>t. (t, [])) tables"
    using initGraph_distinct [OF assms, of "[]" "[]"] i by simp
  have keys0: "set (map fst g0) = set tables"
    unfolding e0 by (simp add: comp_def)
  have deps: "Map_get graph table = Some (dependentsOf tables rels table)"
    if "table \<in> set tables" for table
  proof -
    from that have "Map_get g0 table = Some []"
      unfolding e0 Map_get_def by (simp add: comp_def map_of_map_restrict)
    from buildGraph_dependents [OF keys0 b this] show ?thesis
      by (simp add: foldl_Set_add_first dependentsOf_def)
  qed
  have step: "\<forall>table \<in> set tables. \<forall>counts queue result order.
          kahnLoop graph counts (table # queue) result = Inr order \<longrightarrow>
          prefix (result @ table # queue
                   @ filter (\<lambda>d. Map_get counts d = Some (Num 1))
                       (dependentsOf tables rels table)) order"
    using kahnLoop_enqueue [OF deps dependentsOf_distinct] by blast
  from b' k o p step show ?thesis
    unfolding seed by blast
qed

theorem getInsertionOrder_fifo_witness:
  "distinct [''users'', ''p'', ''x'', ''y'']
   \<and> getInsertionOrder [''users'', ''p'', ''x'', ''y'']
        [rel ''y'' ''p_id'' ''p'' ''id'', rel ''x'' ''p_id'' ''p'' ''id'']
       = Inr [''users'', ''p'', ''y'', ''x'']
   \<and> filter (\<lambda>t. \<not> hasDependency [''users'', ''p'', ''x'', ''y'']
                    [rel ''y'' ''p_id'' ''p'' ''id'', rel ''x'' ''p_id'' ''p'' ''id''] t)
        [''users'', ''p'', ''x'', ''y''] = [''users'', ''p'']
   \<and> dependentsOf [''users'', ''p'', ''x'', ''y'']
        [rel ''y'' ''p_id'' ''p'' ''id'', rel ''x'' ''p_id'' ''p'' ''id''] ''p'' = [''y'', ''x'']
   \<and> indexOf [''users'', ''p'', ''x'', ''y''] ''x'' < indexOf [''users'', ''p'', ''x'', ''y''] ''y''
   \<and> kahnLoop [(''users'', []), (''p'', [''y'', ''x'']), (''x'', []), (''y'', [])]
        [(''users'', Num 0), (''p'', Num 0), (''x'', Num 1), (''y'', Num 1)] [''p''] [''users'']
       = Inr [''users'', ''p'', ''y'', ''x'']
   \<and> prefix ([''users''] @ ''p'' # [] @
        filter (\<lambda>d. Map_get [(''users'', Num 0), (''p'', Num 0), (''x'', Num 1), (''y'', Num 1)] d
                      = Some (Num 1))
          (dependentsOf [''users'', ''p'', ''x'', ''y'']
             [rel ''y'' ''p_id'' ''p'' ''id'', rel ''x'' ''p_id'' ''p'' ''id''] ''p''))
        [''users'', ''p'', ''y'', ''x'']"
proof -
  have d: "distinct [''users'', ''p'', ''x'', ''y'']"
    by simp
  have b0: "buildGraph [rel ''y'' ''p_id'' ''p'' ''id'', rel ''x'' ''p_id'' ''p'' ''id'']
        (initGraph [''users'', ''p'', ''x'', ''y''] ([], []))
      = Inr ([(''users'', []), (''p'', [''y'', ''x'']), (''x'', []), (''y'', [])],
             [(''users'', Num 0), (''p'', Num 0), (''x'', Num 1), (''y'', Num 1)])"
    by code_simp
  have e: "getInsertionOrder [''users'', ''p'', ''x'', ''y'']
        [rel ''y'' ''p_id'' ''p'' ''id'', rel ''x'' ''p_id'' ''p'' ''id'']
       = Inr [''users'', ''p'', ''y'', ''x'']"
    by code_simp
  have s: "filter (\<lambda>t. \<not> hasDependency [''users'', ''p'', ''x'', ''y'']
                    [rel ''y'' ''p_id'' ''p'' ''id'', rel ''x'' ''p_id'' ''p'' ''id''] t)
        [''users'', ''p'', ''x'', ''y''] = [''users'', ''p'']"
    by code_simp
  have dep: "dependentsOf [''users'', ''p'', ''x'', ''y'']
        [rel ''y'' ''p_id'' ''p'' ''id'', rel ''x'' ''p_id'' ''p'' ''id''] ''p'' = [''y'', ''x'']"
    by code_simp
  have i: "indexOf [''users'', ''p'', ''x'', ''y''] ''x'' < indexOf [''users'', ''p'', ''x'', ''y''] ''y''"
    by code_simp
  have k: "kahnLoop [(''users'', []), (''p'', [''y'', ''x'']), (''x'', []), (''y'', [])]
        [(''users'', Num 0), (''p'', Num 0), (''x'', Num 1), (''y'', Num 1)] [''p''] [''users'']
       = Inr [''users'', ''p'', ''y'', ''x'']"
    by code_simp
  have m: "''p'' \<in> set [''users'', ''p'', ''x'', ''y'']"
    by simp
  from getInsertionOrder_fifo [OF d, of "[rel ''y'' ''p_id'' ''p'' ''id'', rel ''x'' ''p_id'' ''p'' ''id'']"]
  obtain graph inDegree where
    b: "buildGraph [rel ''y'' ''p_id'' ''p'' ''id'', rel ''x'' ''p_id'' ''p'' ''id'']
          (initGraph [''users'', ''p'', ''x'', ''y''] ([], [])) = Inr (graph, inDegree)"
    and step: "\<forall>table \<in> set [''users'', ''p'', ''x'', ''y'']. \<forall>counts queue result order.
          kahnLoop graph counts (table # queue) result = Inr order \<longrightarrow>
          prefix (result @ table # queue
                   @ filter (\<lambda>d. Map_get counts d = Some (Num 1))
                       (dependentsOf [''users'', ''p'', ''x'', ''y'']
                          [rel ''y'' ''p_id'' ''p'' ''id'', rel ''x'' ''p_id'' ''p'' ''id''] table)) order"
    by blast
  from b b0 have g: "graph = [(''users'', []), (''p'', [''y'', ''x'']), (''x'', []), (''y'', [])]"
    by simp
  from step m k have "prefix ([''users''] @ ''p'' # [] @
        filter (\<lambda>d. Map_get [(''users'', Num 0), (''p'', Num 0), (''x'', Num 1), (''y'', Num 1)] d
                      = Some (Num 1))
          (dependentsOf [''users'', ''p'', ''x'', ''y'']
             [rel ''y'' ''p_id'' ''p'' ''id'', rel ''x'' ''p_id'' ''p'' ''id''] ''p''))
        [''users'', ''p'', ''y'', ''x'']"
    unfolding g by blast
  with d e s dep i k show ?thesis
    by (intro conjI)
qed

section \<open>The schema analyser: the first type other than null is final\<close>

lemma typesKept_refl: "typesKept m m"
  by (simp add: typesKept_def)

lemma typesKept_trans: "typesKept a b \<Longrightarrow> typesKept b c \<Longrightarrow> typesKept a c"
  unfolding typesKept_def by (metis (no_types, lifting))

lemma registerField_kept: "typesKept m (fst (registerField name v m))"
  unfolding registerField_def typesKept_def
  by (auto simp: Map_get_Map_set Map_has_get split: sum.splits)

lemma promoteType_kept: "typesKept m (fst (promoteType name v m))"
  unfolding promoteType_def typesKept_def
  by (auto simp: Map_get_Map_set split: sum.splits option.splits)

lemma markArray_kept: "typesKept m (fst (markArray name v m))"
  unfolding markArray_def typesKept_def
  by (auto simp: Map_get_Map_set split: JsValue.splits list.splits option.splits)

lemma analyzeDocument_kept: "typesKept m (fst (analyzeDocument doc m pathPrefix))"
proof (induction doc m pathPrefix rule: analyzeDocument.induct)
  case (1 fieldMap pathPrefix)
  then show ?case by (simp add: typesKept_refl)
next
  case (2 key v rest fieldMap pathPrefix)
  let ?name = "joinPath pathPrefix key"
  let ?r = "registerField ?name v fieldMap"
  let ?p = "promoteType ?name v (fst ?r)"
  let ?m = "markArray ?name v (fst ?p)"
  have r: "typesKept fieldMap (fst ?r)" by (rule registerField_kept)
  have p: "typesKept fieldMap (fst ?p)"
    by (rule typesKept_trans [OF r promoteType_kept])
  have m: "typesKept fieldMap (fst ?m)"
    by (rule typesKept_trans [OF p markArray_kept])
  show ?case
  proof (cases "snd ?r \<noteq> None")
    case True
    then show ?thesis using r by (simp add: Let_def)
  next
    case rOK: False
    show ?thesis
    proof (cases "snd ?p \<noteq> None")
      case True
      then show ?thesis using rOK p by (simp add: Let_def)
    next
      case pOK: False
      show ?thesis
      proof (cases "snd ?m \<noteq> None")
        case True
        then show ?thesis using rOK pOK m by (simp add: Let_def)
      next
        case mOK: False
        show ?thesis
        proof (cases "nestedEntries v")
          case None
          from 2(1) [OF refl refl rOK refl pOK refl mOK None]
          have "typesKept (fst ?m) (fst (analyzeDocument rest (fst ?m) pathPrefix))" .
          with m have "typesKept fieldMap (fst (analyzeDocument rest (fst ?m) pathPrefix))"
            by (rule typesKept_trans)
          then show ?thesis using rOK pOK mOK None by (simp add: Let_def)
        next
          case (Some entries)
          let ?n = "analyzeDocument entries (fst ?m) ?name"
          from 2(2) [OF refl refl rOK refl pOK refl mOK Some]
          have "typesKept (fst ?m) (fst ?n)" .
          with m have n: "typesKept fieldMap (fst ?n)"
            by (rule typesKept_trans)
          show ?thesis
          proof (cases "snd ?n \<noteq> None")
            case True
            then show ?thesis using rOK pOK mOK Some n by (simp add: Let_def)
          next
            case nOK: False
            from 2(3) [OF refl refl rOK refl pOK refl mOK Some refl nOK]
            have "typesKept (fst ?n) (fst (analyzeDocument rest (fst ?n) pathPrefix))" .
            with n have "typesKept fieldMap (fst (analyzeDocument rest (fst ?n) pathPrefix))"
              by (rule typesKept_trans)
            then show ?thesis using rOK pOK mOK Some nOK by (simp add: Let_def)
          qed
        qed
      qed
    qed
  qed
qed

lemma analyzeDocuments_kept: "typesKept m (fst (analyzeDocuments docs m))"
proof (induction docs arbitrary: m)
  case Nil
  then show ?case by (simp add: typesKept_refl)
next
  case (Cons doc docs)
  show ?case
    using analyzeDocument_kept [of m doc "[]"] Cons [of "fst (analyzeDocument doc m [])"]
    by (auto simp: Let_def intro: typesKept_trans)
qed

text \<open>
  Claim C7. Whatever documents are folded into the field map, and from whatever map the
  fold starts, a path whose descriptor holds a type other than \<open>null\<close> keeps that type:
  only a descriptor whose type is \<open>null\<close> is ever assigned a type, and a \<open>null\<close> or
  \<open>undefined\<close> value assigns nothing. This holds of every call of \<open>analyzeDocument\<close> and of
  the loop over the documents, also when an exception ends it.
\<close>

theorem analyzeDocuments_types_final:
  "typesKept fieldMap (fst (analyzeDocuments docs fieldMap))
   \<and> typesKept fieldMap (fst (analyzeDocument doc fieldMap pathPrefix))
   \<and> promoteType name JNull fieldMap = (fieldMap, None)"
proof (intro conjI)
  show "typesKept fieldMap (fst (analyzeDocuments docs fieldMap))"
    by (rule analyzeDocuments_kept)
  show "typesKept fieldMap (fst (analyzeDocument doc fieldMap pathPrefix))"
    by (rule analyzeDocument_kept)
  show "promoteType name JNull fieldMap = (fieldMap, None)"
    unfolding promoteType_def by simp
qed

theorem analyzeDocuments_types_final_witness:
  "Map_get [(''a'', \<lparr>fieldName = ''a'', fieldType = TString, isRequired = False, isArray = False\<rparr>)] ''a''
     = Some \<lparr>fieldName = ''a'', fieldType = TString, isRequired = False, isArray = False\<rparr>
   \<and> TString \<noteq> TNull
   \<and> (\<exists>field'. Map_get (fst (analyzeDocuments [[(''a'', JNull)], [(''a'', JNumber 5)]]
           [(''a'', \<lparr>fieldName = ''a'', fieldType = TString, isRequired = False, isArray = False\<rparr>)]))
         ''a'' = Some field' \<and> fieldType field' = TString)"
proof -
  let ?f = "\<lparr>fieldName = ''a'', fieldType = TString, isRequired = False, isArray = False\<rparr>"
  have g: "Map_get [(''a'', ?f)] ''a'' = Some ?f"
    by (simp add: Map_get_def)
  from analyzeDocuments_types_final
    [of "[(''a'', ?f)]" "[[(''a'', JNull)], [(''a'', JNumber 5)]]" "[]" "[]" "[]"]
  have "typesKept [(''a'', ?f)]
          (fst (analyzeDocuments [[(''a'', JNull)], [(''a'', JNumber 5)]] [(''a'', ?f)]))"
    by blast
  with g show ?thesis
    unfolding typesKept_def by force
qed

section \<open>The DDL parser: two passes over the text\<close>

declare matches.simps(8,9) [simp del]


lemma matches_length:
  "st' \<in> set (matches r st) \<Longrightarrow> length (fst st') \<le> length (fst st)"
proof (induction r st arbitrary: st' rule: matches.induct)
  case (1 st)
  then show ?case by simp
next
  case (2 c st)
  then show ?case by (cases "fst st") (auto split: if_splits)
next
  case (3 c st)
  then show ?case by (cases "fst st") (auto split: if_splits)
next
  case (4 p st)
  then show ?case by (cases "fst st") (auto split: if_splits)
next
  case (5 p st)
  then show ?case by (auto split: if_splits)
next
  case (6 a b st)
  from 6(3) obtain mid where m: "mid \<in> set (matches a st)" "st' \<in> set (matches b mid)"
    by auto
  from 6(1) [OF m(1)] 6(2) [OF m(1) m(2)] show ?case by simp
next
  case (7 r st)
  from 7(2) have "st' \<in> set (matches r st) \<or> st' = st" by auto
  then show ?case
  proof
    assume "st' \<in> set (matches r st)"
    then show ?thesis by (rule 7(1))
  next
    assume "st' = st"
    then show ?thesis by simp
  qed
next
  case (8 r st)
  from 8(3) have "st' \<in> set (concat (map (\<lambda>st'. if length (fst st') < length (fst st)
        then matches (Star r) st' else []) (matches r st)) @ [st])"
    by (subst (asm) matches.simps(8))
  then consider "st' = st"
    | mid where "mid \<in> set (matches r st)" "length (fst mid) < length (fst st)"
        "st' \<in> set (matches (Star r) mid)"
    by (auto simp del: matches.simps split: if_splits)
  then show ?case
  proof cases
    case 1
    then show ?thesis by simp
  next
    case 2
    from 8(2) [OF 2(1) 2(2) 2(3)] 2(2) show ?thesis by simp
  qed
next
  case (9 r st)
  from 9(3) have "st' \<in> set (st # concat (map (\<lambda>st'. if length (fst st') < length (fst st)
        then matches (LazyStar r) st' else []) (matches r st)))"
    by (subst (asm) matches.simps(9))
  then consider "st' = st"
    | mid where "mid \<in> set (matches r st)" "length (fst mid) < length (fst st)"
        "st' \<in> set (matches (LazyStar r) mid)"
    by (auto simp del: matches.simps split: if_splits)
  then show ?case
  proof cases
    case 1
    then show ?thesis by simp
  next
    case 2
    from 9(2) [OF 2(1) 2(2) 2(3)] 2(2) show ?thesis by simp
  qed
next
  case (10 i r st)
  from 10(2) obtain mid where "mid \<in> set (matches r st)" "fst st' = fst mid"
    by auto
  with 10(1) [of mid] show ?case by simp
qed

lemma consumes_shorter:
  "consumes r \<Longrightarrow> st' \<in> set (matches r st) \<Longrightarrow> length (fst st') < length (fst st)"
proof (induction r arbitrary: st st')
  case (Seq a b)
  from Seq.prems(2) obtain mid where m: "mid \<in> set (matches a st)" "st' \<in> set (matches b mid)"
    by auto
  from Seq.prems(1) have "consumes a \<or> consumes b" by simp
  then show ?case
  proof
    assume "consumes a"
    from Seq.IH(1) [OF this m(1)] matches_length [OF m(2)] show ?thesis by simp
  next
    assume "consumes b"
    from Seq.IH(2) [OF this m(2)] matches_length [OF m(1)] show ?thesis by simp
  qed
next
  case (Lit c)
  then show ?case by (cases "fst st") (auto split: if_splits)
next
  case (LitI c)
  then show ?case by (cases "fst st") (auto split: if_splits)
next
  case (Cls p)
  then show ?case by (cases "fst st") (auto split: if_splits)
next
  case (Grp i r)
  from Grp.prems(2) obtain mid where "mid \<in> set (matches r st)" "fst st' = fst mid"
    by auto
  with Grp.IH [of mid st] Grp.prems(1) show ?case by simp
qed simp_all

lemma search_nonempty:
  "consumes r \<Longrightarrow> search r i s = Some m \<Longrightarrow> matchIndex m < matchEnd m"
proof (induction s arbitrary: i)
  case Nil
  then show ?case
    using consumes_shorter [of r _ "([], [])"] by (auto split: list.splits)
next
  case (Cons c cs)
  show ?case
  proof (cases "matches r (c # cs, [])")
    case Nil
    with Cons.prems(2) have "search r (Suc i) cs = Some m" by simp
    from Cons.IH [OF Cons.prems(1) this] show ?thesis .
  next
    case (Cons st others)
    then have "st \<in> set (matches r (c # cs, []))" by simp
    from consumes_shorter [OF Cons.prems(1) this] Cons Cons.prems(2) show ?thesis by auto
  qed
qed

lemma exec_nonempty: "consumes r \<Longrightarrow> exec r input i = Some m \<Longrightarrow> matchIndex m < matchEnd m"
  unfolding exec_def by (auto split: if_splits dest: search_nonempty)

declare matchesFrom.simps [simp del]

lemma matches_keeps:
  "st' \<in> set (matches r st) \<Longrightarrow> map_of (snd st) i \<noteq> None \<Longrightarrow> map_of (snd st') i \<noteq> None"
proof (induction r st arbitrary: st' rule: matches.induct)
  case (1 st)
  then show ?case by simp
next
  case (2 c st)
  then show ?case by (cases "fst st") (auto split: if_splits)
next
  case (3 c st)
  then show ?case by (cases "fst st") (auto split: if_splits)
next
  case (4 p st)
  then show ?case by (cases "fst st") (auto split: if_splits)
next
  case (5 p st)
  then show ?case by (auto split: if_splits)
next
  case (6 a b st)
  from 6(3) obtain mid where m: "mid \<in> set (matches a st)" "st' \<in> set (matches b mid)"
    by auto
  from 6(1) [OF m(1) 6(4)] have "map_of (snd mid) i \<noteq> None" .
  from 6(2) [OF m(1) m(2) this] show ?case .
next
  case (7 r st)
  from 7(2) have "st' \<in> set (matches r st) \<or> st' = st" by auto
  then show ?case
  proof
    assume "st' \<in> set (matches r st)"
    from 7(1) [OF this 7(3)] show ?thesis .
  next
    assume "st' = st"
    with 7(3) show ?thesis by simp
  qed
next
  case (8 r st)
  from 8(3) have "st' \<in> set (concat (map (\<lambda>st'. if length (fst st') < length (fst st)
        then matches (Star r) st' else []) (matches r st)) @ [st])"
    by (subst (asm) matches.simps(8))
  then consider "st' = st"
    | mid where "mid \<in> set (matches r st)" "length (fst mid) < length (fst st)"
        "st' \<in> set (matches (Star r) mid)"
    by (auto simp del: matches.simps split: if_splits)
  then show ?case
  proof cases
    case 1
    with 8(4) show ?thesis by simp
  next
    case 2
    from 8(1) [OF 2(1) 8(4)] have "map_of (snd mid) i \<noteq> None" .
    from 8(2) [OF 2(1) 2(2) 2(3) this] show ?thesis .
  qed
next
  case (9 r st)
  from 9(3) have "st' \<in> set (st # concat (map (\<lambda>st'. if length (fst st') < length (fst st)
        then matches (LazyStar r) st' else []) (matches r st)))"
    by (subst (asm) matches.simps(9))
  then consider "st' = st"
    | mid where "mid \<in> set (matches r st)" "length (fst mid) < length (fst st)"
        "st' \<in> set (matches (LazyStar r) mid)"
    by (auto simp del: matches.simps split: if_splits)
  then show ?case
  proof cases
    case 1
    with 9(4) show ?thesis by simp
  next
    case 2
    from 9(1) [OF 2(1) 9(4)] have "map_of (snd mid) i \<noteq> None" .
    from 9(2) [OF 2(1) 2(2) 2(3) this] show ?thesis .
  qed
next
  case (10 j r st)
  from 10(2) obtain mid t where m: "mid \<in> set (matches r st)" "snd st' = (j, t) # snd mid"
    by auto
  from 10(1) [OF m(1) 10(3)] m(2) show ?case by simp
qed

lemma binds_captured:
  "binds i r \<Longrightarrow> st' \<in> set (matches r st) \<Longrightarrow> map_of (snd st') i \<noteq> None"
proof (induction r arbitrary: st st')
  case (Seq a b)
  from Seq.prems(2) obtain mid where m: "mid \<in> set (matches a st)" "st' \<in> set (matches b mid)"
    by auto
  from Seq.prems(1) have "binds i a \<or> binds i b" by simp
  then show ?case
  proof
    assume "binds i a"
    from Seq.IH(1) [OF this m(1)] have "map_of (snd mid) i \<noteq> None" .
    from matches_keeps [OF m(2) this] show ?thesis .
  next
    assume "binds i b"
    from Seq.IH(2) [OF this m(2)] show ?thesis .
  qed
next
  case (Grp j r)
  from Grp.prems(2) obtain mid t where m: "mid \<in> set (matches r st)" "snd st' = (j, t) # snd mid"
    by auto
  show ?case
  proof (cases "j = i")
    case True
    with m(2) show ?thesis by simp
  next
    case False
    with Grp.prems(1) have "binds i r" by simp
    from Grp.IH [OF this m(1)] m(2) show ?thesis by simp
  qed
qed simp_all

lemma search_groups:
  "binds i r \<Longrightarrow> search r k s = Some m \<Longrightarrow> map_of (groups m) i \<noteq> None"
proof (induction s arbitrary: k)
  case Nil
  show ?case
  proof (cases "matches r ([], [])")
    case Nil
    with Nil.prems(2) show ?thesis by simp
  next
    case (Cons st others)
    then have "st \<in> set (matches r ([], []))" by simp
    from binds_captured [OF Nil.prems(1) this] Cons Nil.prems(2) show ?thesis by auto
  qed
next
  case (Cons c cs)
  show ?case
  proof (cases "matches r (c # cs, [])")
    case Nil
    with Cons.prems(2) have "search r (Suc k) cs = Some m" by simp
    from Cons.IH [OF Cons.prems(1) this] show ?thesis .
  next
    case (Cons st others)
    then have "st \<in> set (matches r (c # cs, []))" by simp
    from binds_captured [OF Cons.prems(1) this] Cons Cons.prems(2) show ?thesis by auto
  qed
qed

lemma exec_groups:
  "binds i r \<Longrightarrow> exec r input k = Some m \<Longrightarrow> groupText m i = Inr (groupOf m i)"
  unfolding exec_def groupText_def groupOf_def
  by (auto split: if_splits option.splits dest: search_groups)

lemma whileExec_fold:
  assumes "consumes r"
    and "\<And>m s k. exec r input k = Some m \<Longrightarrow> body m s = Inr (step s m)"
  shows "whileExec r input body i s = Some (foldl step s (matchesFrom r input i), None)"
  using assms
proof (induction r input body i s rule: whileExec.induct)
  case (1 r input body lastIndex state)
  show ?case
  proof (cases "exec r input lastIndex")
    case None
    then show ?thesis
      by (subst matchesFrom.simps) simp
  next
    case (Some m)
    with exec_nonempty [OF 1(2) Some] have ne: "matchEnd m \<noteq> matchIndex m" by simp
    from 1(3) [OF Some] have b: "body m state = Inr (step state m)" .
    from 1(1) [OF Some ne b 1(2) 1(3)]
    have "whileExec r input body (matchEnd m) (step state m)
          = Some (foldl step (step state m) (matchesFrom r input (matchEnd m)), None)" .
    with Some ne b show ?thesis
      by (subst matchesFrom.simps) simp
  qed
qed

lemma foldl_entries: "foldl (\<lambda>found m. found @ entry m) found ms = found @ concat (map entry ms)"
  by (induction ms arbitrary: found) simp_all

lemma foldl_last:
  "foldl (\<lambda>s m. Some (f m)) s ms = (case ms of [] \<Rightarrow> s | c # cs \<Rightarrow> Some (f (last (c # cs))))"
  by (induction ms arbitrary: s) (auto split: list.splits)

lemma matchesFrom_sorted:
  "sorted_wrt (<) (map matchIndex (matchesFrom r input i))
   \<and> (\<forall>m \<in> set (matchesFrom r input i). i \<le> matchIndex m)"
proof (induction r input i rule: matchesFrom.induct)
  case (1 r input lastIndex)
  show ?case
  proof (cases "exec r input lastIndex")
    case None
    then show ?thesis by (subst (1 2) matchesFrom.simps) simp
  next
    case (Some m)
    show ?thesis
    proof (cases "matchEnd m = matchIndex m")
      case True
      with Some show ?thesis by (subst (1 2) matchesFrom.simps) simp
    next
      case False
      from exec_bounds [OF Some] False
      have b: "lastIndex \<le> matchIndex m" "matchIndex m < matchEnd m" by simp_all
      from 1 [OF Some False] b Some False show ?thesis
        by (subst (1 2) matchesFrom.simps) fastforce
    qed
  qed
qed

lemma consumes_regexes:
  "consumes foreignKeyRegex" "consumes inlineReferencesRegex" "consumes createTableRegex"
  by (simp_all add: foreignKeyRegex_def inlineReferencesRegex_def createTableRegex_def
        seqs_def word_def Plus_def)

lemma binds_regexes:
  "binds 1 foreignKeyRegex" "binds 2 foreignKeyRegex" "binds 3 foreignKeyRegex"
  "binds 1 inlineReferencesRegex" "binds 2 inlineReferencesRegex" "binds 3 inlineReferencesRegex"
  "binds 1 createTableRegex"
  by (simp_all add: foreignKeyRegex_def inlineReferencesRegex_def createTableRegex_def
        seqs_def word_def Plus_def)

lemma findTableNameForConstraint_owner:
  "findTableNameForConstraint c (matchIndex m) = Some (ownerOf c m, None)"
proof -
  have body: "(case groupText m' 1 of
            Inl e \<Rightarrow> Inl e
          | Inr t \<Rightarrow> Inr (Some (stripQuotes (trim t))))
        = (Inr (Some (stripQuotes (trim (groupOf m' 1)))) :: JsError + string option)"
    if "exec createTableRegex (take (matchIndex m) c) k = Some m'" for m' k
    unfolding exec_groups [OF binds_regexes(7) that] by simp
  have "whileExec createTableRegex (take (matchIndex m) c)
       (\<lambda>m lastTableName.
          case groupText m 1 of
            Inl e \<Rightarrow> Inl e
          | Inr t \<Rightarrow> Inr (Some (stripQuotes (trim t))))
       0 None
     = Some (foldl (\<lambda>s m. Some (stripQuotes (trim (groupOf m 1)))) None
               (matchesFrom createTableRegex (take (matchIndex m) c) 0), None)"
    by (rule whileExec_fold [OF consumes_regexes(3)]) (rule body)
  then show ?thesis
    unfolding findTableNameForConstraint_def ownerOf_def foldl_last by simp
qed

lemma foreignKeyBody_entries:
  assumes "exec foreignKeyRegex input k = Some m"
  shows "foreignKeyBody c m found = Inr (found @ explicitEntries c m)"
  unfolding foreignKeyBody_def explicitEntries_def
    exec_groups [OF binds_regexes(1) assms] exec_groups [OF binds_regexes(2) assms]
    exec_groups [OF binds_regexes(3) assms] findTableNameForConstraint_owner
  by (simp add: Let_def split: option.splits)

lemma inlineBody_entries:
  assumes "exec inlineReferencesRegex input k = Some m"
  shows "inlineBody c m found = Inr (found @ inlineEntries c m)"
  unfolding inlineBody_def inlineEntries_def
    exec_groups [OF binds_regexes(4) assms] exec_groups [OF binds_regexes(5) assms]
    exec_groups [OF binds_regexes(6) assms] findTableNameForConstraint_owner
  by (simp add: Let_def split: option.splits)

lemma explicit_loop:
  "whileExec foreignKeyRegex c (foreignKeyBody c) 0 [] = Some (explicitPass c, None)"
proof -
  have "whileExec foreignKeyRegex c (foreignKeyBody c) 0 []
      = Some (foldl (\<lambda>found m. found @ explicitEntries c m) []
                (matchesFrom foreignKeyRegex c 0), None)"
    by (rule whileExec_fold [OF consumes_regexes(1)]) (rule foreignKeyBody_entries)
  then show ?thesis
    unfolding explicitPass_def foldl_entries by simp
qed

lemma inline_loop:
  "whileExec inlineReferencesRegex c (inlineBody c) 0 found = Some (found @ inlinePass c, None)"
proof -
  have "whileExec inlineReferencesRegex c (inlineBody c) 0 found
      = Some (foldl (\<lambda>found m. found @ inlineEntries c m) found
                (matchesFrom inlineReferencesRegex c 0), None)"
    by (rule whileExec_fold [OF consumes_regexes(2)]) (rule inlineBody_entries)
  then show ?thesis
    unfolding inlinePass_def foldl_entries by simp
qed

lemma entries_length:
  "length (concat (map (explicitEntries c) ms)) = length (filter (hasOwner c) ms)"
  "length (concat (map (inlineEntries c) ms)) = length (filter (hasOwner c) ms)"
  by (induction ms) (auto simp: explicitEntries_def inlineEntries_def hasOwner_def
                          split: option.splits)

lemma entries_shape:
  "explicitEntries c m = [] \<or> (\<exists>r. explicitEntries c m = [(matchIndex m, r)])"
  "inlineEntries c m = [] \<or> (\<exists>r. inlineEntries c m = [(matchIndex m, r)])"
  by (simp_all add: explicitEntries_def inlineEntries_def split: option.splits)

lemma concat_sorted:
  assumes "\<And>m. f m = [] \<or> (\<exists>r. f m = [(matchIndex m, r)])"
    and "sorted_wrt (<) (map matchIndex ms)"
  shows "sorted_wrt (<) (map fst (concat (map f ms)))
     \<and> set (map fst (concat (map f ms))) \<subseteq> set (map matchIndex ms)"
  using assms(2)
proof (induction ms)
  case Nil
  then show ?case by simp
next
  case (Cons m ms)
  from Cons.prems have later: "\<forall>k \<in> set (map matchIndex ms). matchIndex m < k"
    and rest: "sorted_wrt (<) (map matchIndex ms)"
    by simp_all
  from Cons.IH [OF rest] have ih: "sorted_wrt (<) (map fst (concat (map f ms)))"
    and sub: "set (map fst (concat (map f ms))) \<subseteq> set (map matchIndex ms)"
    by blast+
  from later sub have l: "\<forall>k \<in> set (map fst (concat (map f ms))). matchIndex m < k"
    by blast
  from assms(1) [of m] show ?case
  proof
    assume "f m = []"
    with ih sub show ?thesis by auto
  next
    assume "\<exists>r. f m = [(matchIndex m, r)]"
    then obtain r where "f m = [(matchIndex m, r)]" ..
    with ih sub l show ?thesis by auto
  qed
qed

text \<open>
  Claim C5, amended. \<open>parseRelationships\<close> always returns. Its result is the relationships
  of the explicit \<open>FOREIGN KEY\<close> form followed by those of the inline \<open>REFERENCES\<close> form. Each
  pass goes through the matches of its pattern in the order of the text, and every match
  that has an owning table adds exactly one relationship, made of the groups of that match
  alone: nothing is dropped because an equal relationship is already in the list, so the
  number of relationships is the number of such matches.
\<close>

theorem parseRelationships_two_passes:
  "parseConstraints ddlContent
     = Some (explicitPass (cleanDDL ddlContent) @ inlinePass (cleanDDL ddlContent))
   \<and> parseRelationships ddlContent
     = Some (map snd (explicitPass (cleanDDL ddlContent))
             @ map snd (inlinePass (cleanDDL ddlContent)))
   \<and> sorted_wrt (<) (map matchIndex (matchesFrom foreignKeyRegex (cleanDDL ddlContent) 0))
   \<and> sorted_wrt (<) (map matchIndex (matchesFrom inlineReferencesRegex (cleanDDL ddlContent) 0))
   \<and> sorted_wrt (<) (map fst (explicitPass (cleanDDL ddlContent)))
   \<and> sorted_wrt (<) (map fst (inlinePass (cleanDDL ddlContent)))
   \<and> length (explicitPass (cleanDDL ddlContent))
     = length (filter (hasOwner (cleanDDL ddlContent))
                (matchesFrom foreignKeyRegex (cleanDDL ddlContent) 0))
   \<and> length (inlinePass (cleanDDL ddlContent))
     = length (filter (hasOwner (cleanDDL ddlContent))
                (matchesFrom inlineReferencesRegex (cleanDDL ddlContent) 0))"
proof -
  let ?c = "cleanDDL ddlContent"
  have p: "parseConstraints ddlContent = Some (explicitPass ?c @ inlinePass ?c)"
    unfolding parseConstraints_def Let_def explicit_loop inline_loop by simp
  have s1: "sorted_wrt (<) (map matchIndex (matchesFrom foreignKeyRegex ?c 0))"
    using matchesFrom_sorted [of foreignKeyRegex ?c 0] by blast
  have s2: "sorted_wrt (<) (map matchIndex (matchesFrom inlineReferencesRegex ?c 0))"
    using matchesFrom_sorted [of inlineReferencesRegex ?c 0] by blast
  have o1: "sorted_wrt (<) (map fst (explicitPass ?c))"
    unfolding explicitPass_def
    using concat_sorted [of "explicitEntries ?c", OF entries_shape(1) s1] by blast
  have o2: "sorted_wrt (<) (map fst (inlinePass ?c))"
    unfolding inlinePass_def
    using concat_sorted [of "inlineEntries ?c", OF entries_shape(2) s2] by blast
  have l1: "length (explicitPass ?c)
      = length (filter (hasOwner ?c) (matchesFrom foreignKeyRegex ?c 0))"
    unfolding explicitPass_def by (rule entries_length(1))
  have l2: "length (inlinePass ?c)
      = length (filter (hasOwner ?c) (matchesFrom inlineReferencesRegex ?c 0))"
    unfolding inlinePass_def by (rule entries_length(2))
  have r: "parseRelationships ddlContent
      = Some (map snd (explicitPass ?c) @ map snd (inlinePass ?c))"
    unfolding parseRelationships_def p by simp
  from p r s1 s2 o1 o2 l1 l2 show ?thesis
    by (intro conjI)
qed

theorem parseRelationships_two_passes_witness:
  "parseRelationships duplicateDDL
     = Some [rel ''t'' ''a'' ''u'' ''b'', rel ''t'' ''a'' ''u'' ''b'']
   \<and> parseConstraints duplicateDDL
     = Some [(16, rel ''t'' ''a'' ''u'' ''b''), (49, rel ''t'' ''a'' ''u'' ''b'')]
   \<and> explicitPass (cleanDDL duplicateDDL)
     = [(16, rel ''t'' ''a'' ''u'' ''b''), (49, rel ''t'' ''a'' ''u'' ''b'')]
   \<and> inlinePass (cleanDDL duplicateDDL) = []
   \<and> length (filter (hasOwner (cleanDDL duplicateDDL))
               (matchesFrom foreignKeyRegex (cleanDDL duplicateDDL) 0)) = 2"
proof -
  have e: "explicitPass (cleanDDL duplicateDDL)
     = [(16, rel ''t'' ''a'' ''u'' ''b''), (49, rel ''t'' ''a'' ''u'' ''b'')]"
    by code_simp
  have i: "inlinePass (cleanDDL duplicateDDL) = []"
    by code_simp
  note t = parseRelationships_two_passes [of duplicateDDL]
  from t have "parseConstraints duplicateDDL
     = Some (explicitPass (cleanDDL duplicateDDL) @ inlinePass (cleanDDL duplicateDDL))"
    by (elim conjE) assumption
  then have c: "parseConstraints duplicateDDL
     = Some [(16, rel ''t'' ''a'' ''u'' ''b''), (49, rel ''t'' ''a'' ''u'' ''b'')]"
    unfolding e i by simp
  from t have "parseRelationships duplicateDDL
     = Some (map snd (explicitPass (cleanDDL duplicateDDL))
             @ map snd (inlinePass (cleanDDL duplicateDDL)))"
    by (elim conjE) assumption
  then have r: "parseRelationships duplicateDDL
     = Some [rel ''t'' ''a'' ''u'' ''b'', rel ''t'' ''a'' ''u'' ''b'']"
    unfolding e i by simp
  from t have "length (explicitPass (cleanDDL duplicateDDL))
     = length (filter (hasOwner (cleanDDL duplicateDDL))
                (matchesFrom foreignKeyRegex (cleanDDL duplicateDDL) 0))"
    by (elim conjE) assumption
  then have l: "length (filter (hasOwner (cleanDDL duplicateDDL))
               (matchesFrom foreignKeyRegex (cleanDDL duplicateDDL) 0)) = 2"
    unfolding e by simp
  from r c e i l show ?thesis
    by (intro conjI)
qed

text \<open>
  Claim C5, as stated, fails. In \<open>inlineFirstDDL\<close> the inline reference of \<open>author\<close> stands at
  offset 28 and the explicit constraint on \<open>cat\<close> at offset 61; the explicit one is
  returned first, because the first loop collects every explicit constraint before the
  second loop looks for inline ones.
\<close>

theorem parseRelationships_text_order_counterexample:
  "parseConstraints inlineFirstDDL
     = Some [(61, rel ''posts'' ''cat'' ''cats'' ''id''),
             (28, rel ''posts'' ''author'' ''users'' ''id'')]
   \<and> parseRelationships inlineFirstDDL
     = Some [rel ''posts'' ''cat'' ''cats'' ''id'', rel ''posts'' ''author'' ''users'' ''id'']
   \<and> \<not> inTextOrder [(61, rel ''posts'' ''cat'' ''cats'' ''id''),
                      (28, rel ''posts'' ''author'' ''users'' ''id'')]"
proof -
  have e: "parseConstraints inlineFirstDDL
     = Some [(61, rel ''posts'' ''cat'' ''cats'' ''id''),
             (28, rel ''posts'' ''author'' ''users'' ''id'')]"
    by code_simp
  show ?thesis
    unfolding parseRelationships_def e by (simp add: inTextOrder_def)
qed

section \<open>The migration engine: the result of a run\<close>







lemma callWorldVoid_counts: "callWorldVoid f s = (r, s') \<Longrightarrow> keepsCounts s s'"
  by (auto simp: callWorldVoid_def keepsCounts_def split: prod.splits option.splits)










lemma counts_result: "keepsCounts s s' \<Longrightarrow> migrationResult s' = migrationResult s"
  by (simp add: keepsCounts_def)



lemma MongoAnalyzer_disconnect_result:
  "MongoAnalyzer_disconnect env s = (r, s') \<Longrightarrow> keepsResult s s'"
  unfolding MongoAnalyzer_disconnect_def
  by (auto simp: keepsResult_def split: if_splits dest!: callWorldVoid_counts counts_result)

lemma PostgresManager_disconnect_result:
  "PostgresManager_disconnect env s = (r, s') \<Longrightarrow> keepsResult s s'"
  unfolding PostgresManager_disconnect_def
  by (auto simp: keepsResult_def split: if_splits dest!: callWorldVoid_counts counts_result)



























































end
